theory Spec2Isabelle
  imports Complex_Main "HOL-Library.AList"
begin

section \<open>Quote cache (src/utils/quoteCache.ts)\<close>

text \<open>
  The class \<open>QuoteCache\<close> keeps a JavaScript \<open>Map\<close> from key strings to cached quotes and two
  counters. A JavaScript \<open>Map\<close> iterates in insertion order, \<open>set\<close> on a present key replaces the
  value in place and \<open>delete\<close> removes the key: this is an association list with
  \<open>AList.update\<close>, \<open>AList.delete\<close> and \<open>map_of\<close>. \<open>Date.now()\<close> is a parameter \<open>now\<close> of every
  operation that reads the clock. Amounts are the integer raw units (lamports, token base units)
  that the callers pass; \<open>Math.floor(amount / 1000000)\<close> is then integer division rounding down.
  The payload type \<open>any\<close> is a type variable.
\<close>

record 'q CachedQuote =
  quote :: 'q
  timestamp :: int
  inputMint :: string
  outputMint :: string
  amount :: int

record 'q QuoteCache =
  cache :: "(string \<times> 'q CachedQuote) list"
  hits :: nat
  misses :: nat

definition TTL :: int where
  "TTL = 20000"

definition QuoteCache_new :: "'q QuoteCache" where
  "QuoteCache_new = \<lparr>cache = [], hits = 0, misses = 0\<rparr>"

text \<open>Decimal rendering of an integer, as the template literal does for an integral number.\<close>

definition digit :: "nat \<Rightarrow> char" where
  "digit d = ''0123456789'' ! d"

fun show_nat :: "nat \<Rightarrow> string" where
  "show_nat n = (if n < 10 then [digit n] else show_nat (n div 10) @ [digit (n mod 10)])"

declare show_nat.simps [simp del]

definition show_int :: "int \<Rightarrow> string" where
  "show_int i = (if i < 0 then ''-'' @ show_nat (nat (- i)) else show_nat (nat i))"

definition getCacheKey :: "string \<Rightarrow> string \<Rightarrow> int \<Rightarrow> string" where
  "getCacheKey inMint outMint amt =
     (let roundedAmount = (amt div 1000000) * 1000000
      in inMint @ ''-'' @ outMint @ ''-'' @ show_int roundedAmount)"

text \<open>
  Following the spec's words, not the code: the bucket of an amount as the spec and the
  comment above \<open>Math.floor\<close> describe it, the nearest multiple of 1000000 raw units
  (0.001 of the base unit), a half rounding up as \<open>Math.round\<close> does.
\<close>

definition spec_nearest_bucket :: "int \<Rightarrow> int" where
  "spec_nearest_bucket amt = ((amt + 500000) div 1000000) * 1000000"

text \<open>\<open>get\<close>: the result is \<open>None\<close> for \<open>null\<close> (a miss) and \<open>Some\<close> of the payload for a hit.\<close>

definition QuoteCache_get ::
  "int \<Rightarrow> string \<Rightarrow> string \<Rightarrow> int \<Rightarrow> 'q QuoteCache \<Rightarrow> 'q option \<times> 'q QuoteCache" where
  "QuoteCache_get now inMint outMint amt s =
     (let key = getCacheKey inMint outMint amt in
      case map_of (cache s) key of
        None \<Rightarrow> (None, s\<lparr>misses := misses s + 1\<rparr>)
      | Some cached \<Rightarrow>
          (let age = now - timestamp cached in
           if age > TTL
           then (None, s\<lparr>cache := AList.delete key (cache s), misses := misses s + 1\<rparr>)
           else (Some (quote cached), s\<lparr>hits := hits s + 1\<rparr>)))"

definition QuoteCache_set ::
  "int \<Rightarrow> string \<Rightarrow> string \<Rightarrow> int \<Rightarrow> 'q \<Rightarrow> 'q QuoteCache \<Rightarrow> 'q QuoteCache" where
  "QuoteCache_set now inMint outMint amt q s =
     (let key = getCacheKey inMint outMint amt in
      s\<lparr>cache := AList.update key
            \<lparr>quote = q, timestamp = now, inputMint = inMint, outputMint = outMint, amount = amt\<rparr>
            (cache s)\<rparr>)"

text \<open>
  \<open>cleanup(): void\<close>. The \<open>for \<dots> of\<close> loop walks the entries; deleting the entry being
  visited does not disturb the iteration of a JavaScript \<open>Map\<close>, so the loop is a recursion
  over the entries present at its start, carrying the map and the local counter \<open>removed\<close>.
  The function has no \<open>return\<close>: its value is \<open>undefined\<close>, modelled as \<open>None\<close> in a result
  type that could hold a number. The counter only reaches the console.
\<close>

definition expired :: "int \<Rightarrow> 'q CachedQuote \<Rightarrow> bool" where
  "expired now cached \<longleftrightarrow> now - timestamp cached > TTL"

fun cleanup_loop ::
  "int \<Rightarrow> (string \<times> 'q CachedQuote) list \<Rightarrow> (string \<times> 'q CachedQuote) list \<times> nat
     \<Rightarrow> (string \<times> 'q CachedQuote) list \<times> nat" where
  "cleanup_loop now [] (c, removed) = (c, removed)"
| "cleanup_loop now ((key, cached) # rest) (c, removed) =
     (if now - timestamp cached > TTL
      then cleanup_loop now rest (AList.delete key c, removed + 1)
      else cleanup_loop now rest (c, removed))"

record 'q cleanup_result =
  returned :: "nat option"
  after :: "'q QuoteCache"
  console :: "string list"

definition cleanup :: "int \<Rightarrow> 'q QuoteCache \<Rightarrow> 'q cleanup_result" where
  "cleanup now s =
     (let (c, removed) = cleanup_loop now (cache s) (cache s, 0) in
      \<lparr>returned = None,
       after = s\<lparr>cache := c\<rparr>,
       console = (if removed > 0
                  then [''[Cache] Cleaned up '' @ show_nat removed @ '' expired entries'']
                  else [])\<rparr>)"

definition clear :: "'q QuoteCache \<Rightarrow> 'q QuoteCache" where
  "clear s = s\<lparr>cache := [], hits := 0, misses := 0\<rparr>"


section \<open>Execution queue (class \<open>RequestQueue\<close>, exported as \<open>jupiterQueue\<close>)\<close>

text \<open>
  JavaScript runs each callback to its next \<open>await\<close> without interruption, so the queue is a
  transition system whose steps are those uninterrupted runs. JavaScript numbers are reals
  here; the time of a step is the value \<open>Date.now()\<close> returns during it.

  A queued closure \<open>wrappedFn\<close> is identified by its submission number (the count of earlier
  \<open>add\<close> calls). Besides the fields of the class, the state records where the invocation of
  \<open>process()\<close> is suspended (\<open>drain\<close>) and a history: the priority of every submission, the
  log of dispatches (item, the instant written to \<open>lastRequestTime\<close>, number of submissions
  made so far), the closures called whose \<open>finally\<close> callback has not run yet, the promises
  settled with their outcome, and the closures discarded by \<open>clearQueue\<close>.

  One field \<open>drain\<close> is enough: \<open>add\<close> starts \<open>process()\<close> only when \<open>processing\<close> is false,
  \<open>process()\<close> keeps the flag set until it finds the queue empty, and each invocation ends by
  scheduling the next, so no second invocation is ever in flight (\<open>control_inv\<close> below).
\<close>

datatype priority = High | Normal

datatype 'r outcome = Resolved 'r | Rejected 'r

datatype drain_loop =
    Idle  \<comment> \<open>no invocation of \<open>process()\<close> is in flight\<close>
  | WaitConcurrent real  \<comment> \<open>in \<open>await sleep(100)\<close> of the while loop, due at this instant\<close>
  | WaitDelay real  \<comment> \<open>in \<open>await sleep(minDelay - timeSinceLastRequest)\<close>\<close>
  | Scheduled real  \<comment> \<open>\<open>setTimeout(() => this.process(), 10)\<close> is pending\<close>

record 'r RequestQueue =
  queue :: "nat list"
  processing :: bool
  requestsPerSecond :: real
  minDelay :: real
  lastRequestTime :: real
  activeRequests :: int
  maxConcurrent :: int
  drain :: drain_loop
  submitted :: "priority list"
  dispatched :: "(nat \<times> real \<times> nat) list"
  running :: "nat list"
  settled :: "(nat \<times> 'r outcome) list"
  cleared :: "nat list"
  clock :: real

definition RequestQueue_new :: "'r RequestQueue" where
  "RequestQueue_new =
     \<lparr>queue = [], processing = False, requestsPerSecond = 4, minDelay = 1000 / 4,
      lastRequestTime = 0, activeRequests = 0, maxConcurrent = 1, drain = Idle,
      submitted = [], dispatched = [], running = [], settled = [], cleared = [], clock = 0\<rparr>"

definition setRequestsPerSecond :: "real \<Rightarrow> 'r RequestQueue \<Rightarrow> 'r RequestQueue" where
  "setRequestsPerSecond rate q =
     (let rps = max 1 (min rate 10) in q\<lparr>requestsPerSecond := rps, minDelay := 1000 / rps\<rparr>)"

definition clearQueue :: "'r RequestQueue \<Rightarrow> 'r RequestQueue" where
  "clearQueue q = q\<lparr>cleared := cleared q @ queue q, queue := []\<rparr>"

text \<open>
  \<open>process()\<close>, cut at its awaits. \<open>dispatch\<close> is the part from \<open>this.queue.shift()\<close> to
  \<open>setTimeout\<close>; \<open>shift\<close> on an empty array gives \<open>undefined\<close> and the \<open>if (fn)\<close> is skipped.
  Calling \<open>fn()\<close> starts the submitted work at once.
\<close>

definition dispatch :: "real \<Rightarrow> 'r RequestQueue \<Rightarrow> 'r RequestQueue" where
  "dispatch t q =
     (let q' = (case queue q of
                  [] \<Rightarrow> q
                | fn # rest \<Rightarrow>
                    q\<lparr>queue := rest,
                      activeRequests := activeRequests q + 1,
                      lastRequestTime := t,
                      running := running q @ [fn],
                      dispatched := dispatched q @ [(fn, t, length (submitted q))]\<rparr>)
      in q'\<lparr>drain := Scheduled (t + 10)\<rparr>)"

definition enforce_delay :: "real \<Rightarrow> 'r RequestQueue \<Rightarrow> 'r RequestQueue" where
  "enforce_delay t q =
     (let timeSinceLastRequest = t - lastRequestTime q in
      if timeSinceLastRequest < minDelay q
      then q\<lparr>drain := WaitDelay (t + (minDelay q - timeSinceLastRequest))\<rparr>
      else dispatch t q)"

definition wait_concurrent :: "real \<Rightarrow> 'r RequestQueue \<Rightarrow> 'r RequestQueue" where
  "wait_concurrent t q =
     (if activeRequests q \<ge> maxConcurrent q
      then q\<lparr>drain := WaitConcurrent (t + 100)\<rparr>
      else enforce_delay t q)"

definition process :: "real \<Rightarrow> 'r RequestQueue \<Rightarrow> 'r RequestQueue" where
  "process t q =
     (if length (queue q) = 0
      then q\<lparr>processing := False, drain := Idle\<rparr>
      else wait_concurrent t (q\<lparr>processing := True\<rparr>))"

definition add :: "real \<Rightarrow> priority \<Rightarrow> 'r RequestQueue \<Rightarrow> 'r RequestQueue" where
  "add t prio q =
     (let fn = length (submitted q);
          q1 = q\<lparr>submitted := submitted q @ [prio]\<rparr>;
          q2 = (if prio = High then q1\<lparr>queue := fn # queue q1\<rparr>
                else q1\<lparr>queue := queue q1 @ [fn]\<rparr>)
      in if \<not> processing q2 then process t q2 else q2)"

text \<open>
  The steps. \<open>Settle i out\<close> is the end of the work of item \<open>i\<close>: \<open>wrappedFn\<close> calls \<open>resolve\<close>
  or \<open>reject\<close> with the outcome; \<open>Finally i\<close> is the \<open>finally\<close> callback, a later microtask.
  A step carries the value \<open>Date.now()\<close> returns during it, kept in \<open>clock\<close>. Nothing is
  assumed about it: a timer may fire before or after the instant it is due (the runtime
  truncates a fractional delay and may fire a millisecond early) and the wall clock may be
  set back. A step that is not possible in a state (a timer that is not pending, the end of
  work that is not in flight) gives \<open>None\<close>.
\<close>

datatype 'r event =
    Add priority
  | WakeConcurrent
  | WakeDelay
  | Timer
  | Settle nat "'r outcome"
  | Finally nat
  | ClearQueue
  | SetRequestsPerSecond real

definition step :: "real \<times> 'r event \<Rightarrow> 'r RequestQueue \<Rightarrow> 'r RequestQueue option" where
  "step te q0 =
     (let t = fst te;
          q = q0\<lparr>clock := t\<rparr> in
      case snd te of
        Add prio \<Rightarrow> Some (add t prio q)
      | WakeConcurrent \<Rightarrow>
          (case drain q of
             WaitConcurrent d \<Rightarrow> Some (wait_concurrent t q)
           | _ \<Rightarrow> None)
      | WakeDelay \<Rightarrow>
          (case drain q of
             WaitDelay d \<Rightarrow> Some (dispatch t q)
           | _ \<Rightarrow> None)
      | Timer \<Rightarrow>
          (case drain q of
             Scheduled d \<Rightarrow> Some (process t q)
           | _ \<Rightarrow> None)
      | Settle i out \<Rightarrow>
          if i \<in> set (running q) \<and> i \<notin> fst ` set (settled q)
          then Some (q\<lparr>settled := settled q @ [(i, out)]\<rparr>)
          else None
      | Finally i \<Rightarrow>
          if i \<in> set (running q) \<and> i \<in> fst ` set (settled q)
          then Some (q\<lparr>activeRequests := activeRequests q - 1,
                       running := remove1 i (running q)\<rparr>)
          else None
      | ClearQueue \<Rightarrow> Some (clearQueue q)
      | SetRequestsPerSecond rate \<Rightarrow> Some (setRequestsPerSecond rate q))"

fun run :: "(real \<times> 'r event) list \<Rightarrow> 'r RequestQueue \<Rightarrow> 'r RequestQueue option" where
  "run [] q = Some q"
| "run (e # es) q = (case step e q of None \<Rightarrow> None | Some q' \<Rightarrow> run es q')"

definition is_clear :: "real \<times> 'r event \<Rightarrow> bool" where
  "is_clear te = (case snd te of ClearQueue \<Rightarrow> True | _ \<Rightarrow> False)"

text \<open>\<open>precedes a b xs\<close>: \<open>b\<close> occurs in \<open>xs\<close> after the first \<open>a\<close>.\<close>

fun precedes :: "nat \<Rightarrow> nat \<Rightarrow> nat list \<Rightarrow> bool" where
  "precedes a b [] = False"
| "precedes a b (x # xs) = (if x = a then b \<in> set xs else precedes a b xs)"

definition dispatch_order :: "'r RequestQueue \<Rightarrow> nat list" where
  "dispatch_order q = map fst (dispatched q)"

definition dispatch_times :: "'r RequestQueue \<Rightarrow> real list" where
  "dispatch_times q = map (\<lambda>e. fst (snd e)) (dispatched q)"


section \<open>Cooldown coordinator (module state and functions of the main file)\<close>

text \<open>
  The module-level variables of the cooldown system, with what its functions reach: the set
  \<open>activeTraders\<close> (in insertion order), the map \<open>userSessions\<close> (only the two fields of a
  session that these functions read or write), whether \<open>bot\<close> is non-null (\<open>bot_obj\<close>), the queue
  \<open>jupiterQueue\<close>, the pending \<open>setTimeout\<close> callback that restores the rate (due time and
  rate), and the messages handed to \<open>safeSendMessage\<close>. \<open>TEST_MODE\<close> is imported from a
  constants file and is a field here. \<open>saveSessions()\<close> writes the sessions to disk and is
  left out. The two \<open>Date.now()\<close> readings of one uninterrupted run are the same instant.
\<close>

record UserSession =
  chatId :: int
  botRunning :: bool

datatype message =
    BOT_AUTO_STOPPED int  \<comment> \<open>the text quotes \<open>consecutiveCooldowns\<close>\<close>
  | COOLDOWN_COMPLETE

record 'r Coordinator =
  COOLDOWN_MODE :: bool
  cooldownStartTime :: int
  rateLimitFailureCount :: int
  lastFailureTime :: int
  consecutiveCooldowns :: int
  apiCallsSinceLastReset :: int
  lastResetTime :: int
  testModeSuccessfulTrades :: int
  TEST_MODE :: bool
  activeTraders :: "nat list"
  userSessions :: "nat \<rightharpoonup> UserSession"
  bot_obj :: bool
  jupiterQueue :: "'r RequestQueue"
  timeouts :: "(int \<times> real) list"
  sentMessages :: "(int \<times> message) list"

definition MAX_CONSECUTIVE_COOLDOWNS :: int where
  "MAX_CONSECUTIVE_COOLDOWNS = 3"

definition RATE_LIMIT_THRESHOLD :: int where
  "RATE_LIMIT_THRESHOLD = 2"

definition FAILURE_WINDOW :: int where
  "FAILURE_WINDOW = 10000"

definition COOLDOWN_DURATION :: int where
  "COOLDOWN_DURATION = 60000"

definition Coordinator_init :: "'r Coordinator" where
  "Coordinator_init =
     \<lparr>COOLDOWN_MODE = False, cooldownStartTime = 0, rateLimitFailureCount = 0,
      lastFailureTime = 0, consecutiveCooldowns = 0, apiCallsSinceLastReset = 0,
      lastResetTime = 0, testModeSuccessfulTrades = 0, TEST_MODE = False,
      activeTraders = [], userSessions = Map.empty, bot_obj = False,
      jupiterQueue = RequestQueue_new, timeouts = [], sentMessages = []\<rparr>"

text \<open>The body of the \<open>activeTraders.forEach\<close> callback in \<open>triggerCooldown\<close>.\<close>

definition stop_trader :: "nat \<Rightarrow> 'r Coordinator \<Rightarrow> 'r Coordinator" where
  "stop_trader userId s =
     (case userSessions s userId of
        None \<Rightarrow> s
      | Some session \<Rightarrow>
          if bot_obj s
          then s\<lparr>userSessions := (userSessions s)(userId \<mapsto> session\<lparr>botRunning := False\<rparr>),
                 sentMessages := sentMessages s
                    @ [(chatId session, BOT_AUTO_STOPPED (consecutiveCooldowns s))]\<rparr>
          else s)"

definition triggerCooldown :: "int \<Rightarrow> 'r Coordinator \<Rightarrow> 'r Coordinator" where
  "triggerCooldown now s =
     (let s1 = s\<lparr>COOLDOWN_MODE := True,
                 cooldownStartTime := now,
                 rateLimitFailureCount := 0,
                 consecutiveCooldowns := consecutiveCooldowns s + 1\<rparr>
      in if consecutiveCooldowns s1 \<ge> MAX_CONSECUTIVE_COOLDOWNS
         then fold stop_trader (activeTraders s1) s1
         else s1)"

definition recordRateLimitFailure :: "int \<Rightarrow> 'r Coordinator \<Rightarrow> 'r Coordinator" where
  "recordRateLimitFailure now s =
     (let s1 = (if now - lastFailureTime s > FAILURE_WINDOW
                then s\<lparr>rateLimitFailureCount := 0\<rparr> else s);
          s2 = s1\<lparr>rateLimitFailureCount := rateLimitFailureCount s1 + 1,
                  lastFailureTime := now\<rparr>
      in if rateLimitFailureCount s2 \<ge> RATE_LIMIT_THRESHOLD \<and> \<not> COOLDOWN_MODE s2
         then triggerCooldown now s2
         else s2)"

definition resetCooldownCounters :: "'r Coordinator \<Rightarrow> 'r Coordinator" where
  "resetCooldownCounters s = s\<lparr>rateLimitFailureCount := 0, lastFailureTime := 0\<rparr>"

text \<open>
  The guard at the head of every iteration of a wallet's trading loop:
  \<open>if (!currentSession?.botRunning) break\<close>.
\<close>

definition worker_continues :: "nat \<Rightarrow> 'r Coordinator \<Rightarrow> bool" where
  "worker_continues userId s =
     (case userSessions s userId of None \<Rightarrow> False | Some session \<Rightarrow> botRunning session)"

text \<open>
  \<open>checkAndExitCooldown\<close> is asynchronous. What it awaits is given by a record: the clock
  readings, the results of \<open>testRateLimitRecovery()\<close> and \<open>testResumptionWithOneWallet()\<close>, and
  what the rest of the program (the awaited sells and test trades, the other wallets' loops)
  does to the shared state while the call is suspended: \<open>meanwhile1\<close> during \<open>sleep(5000)\<close>
  and the recovery test, \<open>meanwhile2\<close> from \<open>buildSellQueue\<close> to the resumption test.
\<close>

record 'r recovery =
  entered :: int
  rateLimitTestPassed :: bool
  resumptionTestPassed :: bool
  extended :: int
  exited :: int
  meanwhile1 :: "'r Coordinator \<Rightarrow> 'r Coordinator"
  meanwhile2 :: "'r Coordinator \<Rightarrow> 'r Coordinator"

text \<open>The body of the \<open>activeTraders.forEach\<close> callback at the end of \<open>checkAndExitCooldown\<close>.\<close>

definition notify_complete :: "nat \<Rightarrow> 'r Coordinator \<Rightarrow> 'r Coordinator" where
  "notify_complete userId s =
     (case userSessions s userId of
        None \<Rightarrow> s
      | Some userSession \<Rightarrow>
          if bot_obj s
          then s\<lparr>sentMessages := sentMessages s @ [(chatId userSession, COOLDOWN_COMPLETE)]\<rparr>
          else s)"

text \<open>The last uninterrupted run of \<open>checkAndExitCooldown\<close>, after the resumption test passed.\<close>

definition resume_trading :: "int \<Rightarrow> 'r Coordinator \<Rightarrow> 'r Coordinator" where
  "resume_trading now s =
     (let s1 = s\<lparr>jupiterQueue := setRequestsPerSecond 2 (jupiterQueue s),
                 timeouts := timeouts s @ [(now + 120000, 4)]\<rparr>;
          s2 = s1\<lparr>COOLDOWN_MODE := False,
                  rateLimitFailureCount := 0,
                  apiCallsSinceLastReset := 0,
                  lastResetTime := now,
                  consecutiveCooldowns := 0\<rparr>;
          s3 = (if TEST_MODE s2 then s2\<lparr>testModeSuccessfulTrades := 0\<rparr> else s2)
      in fold notify_complete (activeTraders s3) s3)"

definition checkAndExitCooldown :: "'r recovery \<Rightarrow> 'r Coordinator \<Rightarrow> bool \<times> 'r Coordinator" where
  "checkAndExitCooldown env s =
     (if \<not> COOLDOWN_MODE s then (True, s)
      else
        let cooldownElapsed = entered env - cooldownStartTime s in
        if cooldownElapsed < COOLDOWN_DURATION then (False, s)
        else
          let s1 = meanwhile1 env s in
          if \<not> rateLimitTestPassed env then (False, s1\<lparr>cooldownStartTime := extended env\<rparr>)
          else
            let s2 = meanwhile2 env s1 in
            if \<not> resumptionTestPassed env then (False, s2\<lparr>cooldownStartTime := extended env\<rparr>)
            else (True, resume_trading (exited env) s2))"

text \<open>The \<open>setTimeout\<close> callbacks that are due run \<open>jupiterQueue.setRequestsPerSecond(rate)\<close>.\<close>

definition run_timeouts :: "int \<Rightarrow> 'r Coordinator \<Rightarrow> 'r Coordinator" where
  "run_timeouts now s =
     s\<lparr>jupiterQueue := fold (\<lambda>(due, rate) q. if due \<le> now then setRequestsPerSecond rate q else q)
                          (timeouts s) (jupiterQueue s),
       timeouts := filter (\<lambda>(due, rate). \<not> due \<le> now) (timeouts s)\<rparr>"


section \<open>Invariants, relations and runs used in the proofs\<close>

text \<open>
  Properties of the states the queue and the coordinator reach, relations between a state
  and its successor that name what a step does to the queue and the history, and the
  concrete runs evaluated below.
\<close>

text \<open>
  The consecutive-cooldown counter as the coordinator's own functions leave it: one while in
  cooldown, zero otherwise.
\<close>

definition escalation_inv :: "'r Coordinator \<Rightarrow> bool" where
  "escalation_inv s \<longleftrightarrow>
     (if COOLDOWN_MODE s then consecutiveCooldowns s = 1 else consecutiveCooldowns s = 0)"

text \<open>
  A recovery attempt entered at \<open>t\<close>, after the hold, whose \<open>testRateLimitRecovery()\<close> fails
  while one more rate-limit failure is recorded by a wallet; and a coordinator with one
  active trader, its trading loop running and the Telegram bot created.
\<close>

definition recovery_fails :: "int \<Rightarrow> 'r recovery" where
  "recovery_fails t =
     \<lparr>entered = t, rateLimitTestPassed = False, resumptionTestPassed = False,
      extended = t + 5000, exited = t + 5000,
      meanwhile1 = recordRateLimitFailure (t + 1000), meanwhile2 = (\<lambda>s. s)\<rparr>"

definition one_trader :: "unit Coordinator" where
  "one_trader =
     Coordinator_init\<lparr>activeTraders := [7],
        userSessions := [7 \<mapsto> \<lparr>chatId = 70, botRunning = True\<rparr>], bot_obj := True\<rparr>"

text \<open>
  The flag \<open>processing\<close> is set exactly while an invocation of \<open>process()\<close> is in flight, so
  \<open>add\<close> never starts a second one; \<open>activeRequests\<close> counts the closures called and not yet
  finished; the pacing sleep is only entered with a free slot.
\<close>

definition control_inv :: "'r RequestQueue \<Rightarrow> bool" where
  "control_inv q \<longleftrightarrow>
     (processing q \<longleftrightarrow> drain q \<noteq> Idle) \<and>
     (drain q = Idle \<longrightarrow> queue q = []) \<and>
     activeRequests q = int (length (running q)) \<and>
     activeRequests q \<le> maxConcurrent q \<and>
     maxConcurrent q = 1 \<and>
     (\<forall>d. drain q = WaitDelay d \<longrightarrow> activeRequests q < maxConcurrent q)"

text \<open>
  \<open>ahead sub a b\<close>: item \<open>a\<close> may stand before item \<open>b\<close> in the queue: \<open>b\<close> is a later normal
  item, or \<open>a\<close> is a later high item.
\<close>

definition ahead :: "priority list \<Rightarrow> nat \<Rightarrow> nat \<Rightarrow> bool" where
  "ahead sub a b \<longleftrightarrow> (sub ! b = Normal \<and> a < b) \<or> (sub ! a = High \<and> b < a)"

text \<open>A step that leaves queue and history alone, and a step that calls the head of the queue.\<close>

definition keeps :: "'r RequestQueue \<Rightarrow> 'r RequestQueue \<Rightarrow> bool" where
  "keeps q q' \<longleftrightarrow>
     queue q' = queue q \<and> submitted q' = submitted q \<and> dispatched q' = dispatched q \<and>
     running q' = running q \<and> settled q' = settled q \<and> cleared q' = cleared q"

definition shifts :: "real \<Rightarrow> 'r RequestQueue \<Rightarrow> 'r RequestQueue \<Rightarrow> bool" where
  "shifts t q q' \<longleftrightarrow>
     (\<exists>fn rest. queue q = fn # rest \<and> queue q' = rest \<and>
        dispatched q' = dispatched q @ [(fn, t, length (submitted q))] \<and>
        running q' = running q @ [fn]) \<and>
     submitted q' = submitted q \<and> settled q' = settled q \<and> cleared q' = cleared q"

definition enqueued :: "priority \<Rightarrow> 'r RequestQueue \<Rightarrow> 'r RequestQueue \<Rightarrow> bool" where
  "enqueued p q q' \<longleftrightarrow>
     submitted q' = submitted q @ [p] \<and>
     queue q' = (if p = High then length (submitted q) # queue q else queue q @ [length (submitted q)]) \<and>
     dispatched q' = dispatched q \<and> running q' = running q \<and> settled q' = settled q \<and>
     cleared q' = cleared q"

text \<open>
  Every submitted item is in exactly one place: waiting in the queue, dispatched, or
  discarded by \<open>clearQueue\<close>.
\<close>

definition accounted :: "'r RequestQueue \<Rightarrow> bool" where
  "accounted q \<longleftrightarrow>
     distinct (queue q @ dispatch_order q @ cleared q) \<and>
     set (queue q @ dispatch_order q @ cleared q) = {..<length (submitted q)}"

definition work_ok :: "'r RequestQueue \<Rightarrow> bool" where
  "work_ok q \<longleftrightarrow>
     distinct (running q) \<and> set (running q) \<subseteq> set (dispatch_order q) \<and>
     distinct (map fst (settled q)) \<and> fst ` set (settled q) \<subseteq> set (dispatch_order q) \<and>
     (\<forall>i \<in> set (dispatch_order q). i \<in> set (running q) \<or> i \<in> fst ` set (settled q))"

definition ordered :: "'r RequestQueue \<Rightarrow> bool" where
  "ordered q \<longleftrightarrow>
     sorted_wrt (ahead (submitted q)) (queue q) \<and>
     (\<forall>c \<in> set (cleared q). \<forall>z \<in> set (queue q). c < z) \<and>
     (\<forall>(x, t, k) \<in> set (dispatched q). x < k \<and> k \<le> length (submitted q)) \<and>
     (\<forall>m \<in> set (dispatch_order q). submitted q ! m = Normal \<longrightarrow> (\<forall>z \<in> set (queue q). m < z)) \<and>
     (\<forall>x \<in> set (dispatch_order q). \<forall>m \<in> set (dispatch_order q).
         x < m \<and> submitted q ! m = Normal \<longrightarrow> precedes x m (dispatch_order q)) \<and>
     (\<forall>(x, t, k) \<in> set (dispatched q). \<forall>h. x < h \<and> h < k \<and> submitted q ! h = High \<longrightarrow>
         precedes h x (dispatch_order q))"

definition hist_inv :: "'r RequestQueue \<Rightarrow> bool" where
  "hist_inv q \<longleftrightarrow> accounted q \<and> work_ok q \<and> ordered q"

text \<open>
  Two submissions at the default rate of 4 per second. The first is dispatched at 1000; the
  drain loop then waits for the free slot and, at 1110, starts its pacing sleep, due at 1250.
  In the first run \<open>setRequestsPerSecond(2)\<close> is called at 1200, as \<open>checkAndExitCooldown\<close>
  does, and the timer fires when due; in the second the timer fires one millisecond early.
\<close>

definition rate_lowered_trace :: "(real \<times> unit event) list" where
  "rate_lowered_trace =
     [(1000, Add Normal), (1000, Add Normal), (1010, Timer),
      (1050, Settle 0 (Resolved ())), (1050, Finally 0), (1110, WakeConcurrent),
      (1200, SetRequestsPerSecond 2), (1250, WakeDelay)]"

definition early_timer_trace :: "(real \<times> unit event) list" where
  "early_timer_trace =
     [(1000, Add Normal), (1000, Add Normal), (1010, Timer),
      (1050, Settle 0 (Resolved ())), (1050, Finally 0), (1110, WakeConcurrent),
      (1249, WakeDelay)]"

text \<open>
  Steps of the runtime alone (timers firing, work completing): no call of \<open>add\<close>,
  \<open>clearQueue\<close> or \<open>setRequestsPerSecond\<close>.
\<close>

definition quiet :: "real \<times> 'r event \<Rightarrow> bool" where
  "quiet te = (case snd te of
       Add _ \<Rightarrow> False | ClearQueue \<Rightarrow> False | SetRequestsPerSecond _ \<Rightarrow> False | _ \<Rightarrow> True)"

definition waits :: "'r RequestQueue \<Rightarrow> 'r RequestQueue \<Rightarrow> bool" where
  "waits q q' \<longleftrightarrow>
     queue q' = queue q \<and> dispatched q' = dispatched q \<and> submitted q' = submitted q \<and>
     cleared q' = cleared q"

definition serves :: "'r RequestQueue \<Rightarrow> 'r RequestQueue \<Rightarrow> bool" where
  "serves q q' \<longleftrightarrow>
     (\<exists>fn rest. queue q = fn # rest \<and> queue q' = rest \<and>
        dispatch_order q' = dispatch_order q @ [fn]) \<and>
     submitted q' = submitted q \<and> cleared q' = cleared q"


section \<open>Quote cache: proofs\<close>

lemmas key_eval = getCacheKey_def show_int_def show_nat.simps digit_def Let_def

lemma cleanup_loop_eq:
  "cleanup_loop now es (c, r) =
     (filter (\<lambda>p. fst p \<notin> fst ` {e \<in> set es. expired now (snd e)}) c,
      r + length (filter (\<lambda>e. expired now (snd e)) es))"
proof (induction es arbitrary: c r)
  case Nil
  then show ?case by simp
next
  case (Cons e es)
  obtain key cached where e: "e = (key, cached)" by (cases e)
  show ?case
    unfolding e
    apply (simp add: Cons.IH expired_def AList.delete_eq)
    apply (auto intro!: filter_cong simp: image_iff)
    done
qed

lemma distinct_key_expired:
  assumes "distinct (map fst c)" and "p \<in> set c"
  shows "fst p \<in> fst ` {e \<in> set c. expired now (snd e)} \<longleftrightarrow> expired now (snd p)"
proof
  assume "fst p \<in> fst ` {e \<in> set c. expired now (snd e)}"
  then obtain e where e: "e \<in> set c" "expired now (snd e)" "fst e = fst p" by auto
  from assms e(1,3) have "e = p" by (metis eq_key_imp_eq_value prod.collapse)
  with e(2) show "expired now (snd p)" by simp
next
  assume "expired now (snd p)"
  with assms(2) show "fst p \<in> fst ` {e \<in> set c. expired now (snd e)}" by force
qed

lemma cleanup_loop_self:
  assumes "distinct (map fst c)"
  shows "cleanup_loop now c (c, 0) =
     (filter (\<lambda>p. \<not> expired now (snd p)) c, length (filter (\<lambda>p. expired now (snd p)) c))"
  using assms by (simp add: cleanup_loop_eq distinct_key_expired cong: filter_cong)

text \<open>
  Claim C7. For every call \<open>get(inputMint, outputMint, amount)\<close> at clock reading \<open>now\<close>: if the
  entry stored under the key is older than the TTL of 20000 ms, the call returns \<open>null\<close> (a
  miss) and afterwards the cache has no entry under that key; and whenever the call returns
  a payload, it is the payload of the stored entry and that entry's age is at most the TTL.
\<close>

theorem get_never_returns_expired:
  "(\<forall>cached. map_of (cache s) (getCacheKey i o' a) = Some cached \<and> now - timestamp cached > TTL \<longrightarrow>
      fst (QuoteCache_get now i o' a s) = None
      \<and> map_of (cache (snd (QuoteCache_get now i o' a s))) (getCacheKey i o' a) = None)
   \<and> (\<forall>q. fst (QuoteCache_get now i o' a s) = Some q \<longrightarrow>
        (\<exists>cached. map_of (cache s) (getCacheKey i o' a) = Some cached \<and> quote cached = q
            \<and> now - timestamp cached \<le> TTL))"
  by (auto simp: QuoteCache_get_def Let_def AList.delete_conv split: option.splits)

text \<open>An entry stored at 0 is a miss at 20001 and evicted, and still a hit at 20000.\<close>

theorem get_never_returns_expired_witness:
  "map_of (cache (QuoteCache_set 0 ''SOL'' ''USDC'' 1000000 (7::nat) QuoteCache_new))
      (getCacheKey ''SOL'' ''USDC'' 1000000)
     = Some \<lparr>quote = 7, timestamp = 0, inputMint = ''SOL'', outputMint = ''USDC'', amount = 1000000\<rparr>
   \<and> 20001 - timestamp \<lparr>quote = 7::nat, timestamp = 0, inputMint = ''SOL'', outputMint = ''USDC'',
         amount = 1000000\<rparr> > TTL
   \<and> fst (QuoteCache_get 20001 ''SOL'' ''USDC'' 1000000
         (QuoteCache_set 0 ''SOL'' ''USDC'' 1000000 (7::nat) QuoteCache_new)) = None
   \<and> map_of (cache (snd (QuoteCache_get 20001 ''SOL'' ''USDC'' 1000000
         (QuoteCache_set 0 ''SOL'' ''USDC'' 1000000 (7::nat) QuoteCache_new))))
       (getCacheKey ''SOL'' ''USDC'' 1000000) = None
   \<and> fst (QuoteCache_get 20000 ''SOL'' ''USDC'' 1000000
         (QuoteCache_set 0 ''SOL'' ''USDC'' 1000000 (7::nat) QuoteCache_new)) = Some 7
   \<and> (20000::int) - 0 \<le> TTL"
proof -
  let ?s = "QuoteCache_set 0 ''SOL'' ''USDC'' 1000000 (7::nat) QuoteCache_new"
  let ?c = "\<lparr>quote = 7::nat, timestamp = 0, inputMint = ''SOL'', outputMint = ''USDC'',
              amount = 1000000\<rparr>"
  have m: "map_of (cache ?s) (getCacheKey ''SOL'' ''USDC'' 1000000) = Some ?c"
    by (simp add: QuoteCache_set_def QuoteCache_new_def key_eval)
  have t: "20001 - timestamp ?c > TTL" by (simp add: TTL_def)
  have h: "fst (QuoteCache_get 20000 ''SOL'' ''USDC'' 1000000 ?s) = Some 7"
    by (simp add: QuoteCache_get_def m TTL_def)
  from get_never_returns_expired [of ?s "''SOL''" "''USDC''" 1000000 20001] m t
  have "fst (QuoteCache_get 20001 ''SOL'' ''USDC'' 1000000 ?s) = None
      \<and> map_of (cache (snd (QuoteCache_get 20001 ''SOL'' ''USDC'' 1000000 ?s)))
           (getCacheKey ''SOL'' ''USDC'' 1000000) = None"
    by blast
  with m t h show ?thesis by (simp add: TTL_def)
qed

lemma same_bucket_same_key:
  "a div 1000000 = b div 1000000 \<Longrightarrow> getCacheKey i o' a = getCacheKey i o' b"
  by (simp add: getCacheKey_def)

text \<open>
  What the code does: two amounts with the same quotient by 1000000 (rounding down) share
  one entry.
\<close>

lemma floor_bucket_shares_entry:
  "a div 1000000 = b div 1000000 \<Longrightarrow> now' - now \<le> TTL \<Longrightarrow>
     fst (QuoteCache_get now' i o' b (QuoteCache_set now i o' a X s)) = Some X"
proof -
  assume h: "a div 1000000 = b div 1000000" "now' - now \<le> TTL"
  then have k: "getCacheKey i o' b = getCacheKey i o' a"
    by (intro same_bucket_same_key) simp
  show "fst (QuoteCache_get now' i o' b (QuoteCache_set now i o' a X s)) = Some X"
    using h by (simp add: QuoteCache_get_def QuoteCache_set_def Let_def k update_conv')
qed

text \<open>
  Claim C8 fails on the code. The key holds \<open>Math.floor(amount / 1000000) * 1000000\<close>, under
  a comment saying "round to nearest". After \<open>set("SOL","USDC",1000000,X)\<close>, the amount 999600
  has the same nearest multiple of 1000000 but the key \<open>SOL-USDC-0\<close>, so \<open>get\<close> misses; the
  amount 1999999 has another nearest multiple but the same key, so \<open>get\<close> returns \<open>X\<close>, and
  2000000 misses. The scenario of the claim (1000400 returns \<open>X\<close>, 5000000 misses) holds
  under either rounding.
\<close>

theorem floor_bucket_not_nearest:
  "spec_nearest_bucket 999600 = spec_nearest_bucket 1000000
   \<and> fst (QuoteCache_get 5 ''SOL'' ''USDC'' 999600
          (QuoteCache_set 5 ''SOL'' ''USDC'' 1000000 (7::nat) QuoteCache_new)) = None
   \<and> getCacheKey ''SOL'' ''USDC'' 999600 = ''SOL-USDC-0''
   \<and> getCacheKey ''SOL'' ''USDC'' 1000000 = ''SOL-USDC-1000000''
   \<and> spec_nearest_bucket 1999999 \<noteq> spec_nearest_bucket 1000000
   \<and> fst (QuoteCache_get 5 ''SOL'' ''USDC'' 1999999
          (QuoteCache_set 5 ''SOL'' ''USDC'' 1000000 (7::nat) QuoteCache_new)) = Some 7
   \<and> fst (QuoteCache_get 5 ''SOL'' ''USDC'' 2000000
          (QuoteCache_set 5 ''SOL'' ''USDC'' 1000000 (7::nat) QuoteCache_new)) = None
   \<and> fst (QuoteCache_get 5 ''SOL'' ''USDC'' 1000400
          (QuoteCache_set 5 ''SOL'' ''USDC'' 1000000 (7::nat) QuoteCache_new)) = Some 7
   \<and> fst (QuoteCache_get 5 ''SOL'' ''USDC'' 5000000
          (QuoteCache_set 5 ''SOL'' ''USDC'' 1000000 (7::nat) QuoteCache_new)) = None"
  by (simp add: spec_nearest_bucket_def QuoteCache_get_def QuoteCache_set_def QuoteCache_new_def
      TTL_def key_eval)

text \<open>
  Claim C10 as stated fails: \<open>cleanup()\<close> is declared \<open>void\<close> and has no \<open>return\<close>. On a cache
  holding one expired entry it evicts that entry, and its value is \<open>undefined\<close>, not the
  count 1.
\<close>

theorem cleanup_returns_count_counterexample:
  "cache (after (cleanup 30000
      \<lparr>cache = [(''SOL-USDC-1000000'',
                 \<lparr>quote = (7::nat), timestamp = 0, inputMint = ''SOL'', outputMint = ''USDC'',
                  amount = 1000000\<rparr>)], hits = 0, misses = 0\<rparr>)) = []
   \<and> returned (cleanup 30000
      \<lparr>cache = [(''SOL-USDC-1000000'',
                 \<lparr>quote = (7::nat), timestamp = 0, inputMint = ''SOL'', outputMint = ''USDC'',
                  amount = 1000000\<rparr>)], hits = 0, misses = 0\<rparr>) \<noteq> Some 1"
  by (simp add: cleanup_def TTL_def AList.delete_eq)

text \<open>
  Claim C10, amended. For every cache state (a \<open>Map\<close>, so with distinct keys) \<open>cleanup()\<close>
  removes exactly the entries older than the TTL and keeps the others in their order, leaves
  the hit and miss counters alone, and returns nothing; the number of evicted entries is only
  counted in a local variable and written to the console when it is positive.
\<close>

theorem cleanup_removes_expired:
  assumes "distinct (map fst (cache s))"
  shows "cache (after (cleanup now s)) = filter (\<lambda>p. \<not> expired now (snd p)) (cache s)
       \<and> hits (after (cleanup now s)) = hits s \<and> misses (after (cleanup now s)) = misses s
       \<and> returned (cleanup now s) = None
       \<and> console (cleanup now s) =
           (let removed = length (filter (\<lambda>p. expired now (snd p)) (cache s)) in
            if removed > 0
            then [''[Cache] Cleaned up '' @ show_nat removed @ '' expired entries''] else [])"
  using assms by (simp add: cleanup_def cleanup_loop_self Let_def)

theorem cleanup_removes_expired_witness:
  "distinct (map fst [(''a'', \<lparr>quote = (1::nat), timestamp = 0, inputMint = ''a'', outputMint = ''b'', amount = 1\<rparr>),
                      (''b'', \<lparr>quote = 2, timestamp = 20000, inputMint = ''b'', outputMint = ''a'', amount = 2\<rparr>)])
   \<and> cache (after (cleanup 30000
        \<lparr>cache = [(''a'', \<lparr>quote = (1::nat), timestamp = 0, inputMint = ''a'', outputMint = ''b'', amount = 1\<rparr>),
                  (''b'', \<lparr>quote = 2, timestamp = 20000, inputMint = ''b'', outputMint = ''a'', amount = 2\<rparr>)],
         hits = 3, misses = 4\<rparr>))
       = [(''b'', \<lparr>quote = 2, timestamp = 20000, inputMint = ''b'', outputMint = ''a'', amount = 2\<rparr>)]
   \<and> returned (cleanup 30000
        \<lparr>cache = [(''a'', \<lparr>quote = (1::nat), timestamp = 0, inputMint = ''a'', outputMint = ''b'', amount = 1\<rparr>),
                  (''b'', \<lparr>quote = 2, timestamp = 20000, inputMint = ''b'', outputMint = ''a'', amount = 2\<rparr>)],
         hits = 3, misses = 4\<rparr>) = None"
  using cleanup_removes_expired [of
        "\<lparr>cache = [(''a'', \<lparr>quote = (1::nat), timestamp = 0, inputMint = ''a'', outputMint = ''b'', amount = 1\<rparr>),
                  (''b'', \<lparr>quote = 2, timestamp = 20000, inputMint = ''b'', outputMint = ''a'', amount = 2\<rparr>)],
         hits = 3, misses = 4\<rparr>" 30000]
  by (simp add: expired_def TTL_def)


section \<open>Cooldown coordinator: proofs\<close>

lemma fold_stop_trader_fields [simp]:
  "COOLDOWN_MODE (fold stop_trader us s) = COOLDOWN_MODE s"
  "consecutiveCooldowns (fold stop_trader us s) = consecutiveCooldowns s"
  "bot_obj (fold stop_trader us s) = bot_obj s"
  "rateLimitFailureCount (fold stop_trader us s) = rateLimitFailureCount s"
  "lastFailureTime (fold stop_trader us s) = lastFailureTime s"
  "cooldownStartTime (fold stop_trader us s) = cooldownStartTime s"
  "jupiterQueue (fold stop_trader us s) = jupiterQueue s"
  by (induction us arbitrary: s; simp add: stop_trader_def split: option.splits)+

lemma fold_notify_complete_fields [simp]:
  "COOLDOWN_MODE (fold notify_complete us s) = COOLDOWN_MODE s"
  "consecutiveCooldowns (fold notify_complete us s) = consecutiveCooldowns s"
  "rateLimitFailureCount (fold notify_complete us s) = rateLimitFailureCount s"
  "jupiterQueue (fold notify_complete us s) = jupiterQueue s"
  "timeouts (fold notify_complete us s) = timeouts s"
  "userSessions (fold notify_complete us s) = userSessions s"
  by (induction us arbitrary: s; simp add: notify_complete_def split: option.splits)+

text \<open>
  Claim C4. Starting outside cooldown: two rate-limit failures recorded at \<open>t1\<close> and \<open>t2\<close> with
  \<open>t2 - t1 \<le> 10000\<close> leave \<open>COOLDOWN_MODE\<close> true; a single failure at \<open>t1\<close> (with no earlier
  failure still in the window) leaves it false, and so does a next failure more than
  10000 ms later, which resets the count.
\<close>

theorem cooldown_entry_threshold:
  assumes "\<not> COOLDOWN_MODE s" and "0 \<le> rateLimitFailureCount s"
  shows "(t2 - t1 \<le> FAILURE_WINDOW \<longrightarrow>
           COOLDOWN_MODE (recordRateLimitFailure t2 (recordRateLimitFailure t1 s)))
       \<and> ((rateLimitFailureCount s = 0 \<or> t1 - lastFailureTime s > FAILURE_WINDOW)
            \<and> t2 - t1 > FAILURE_WINDOW \<longrightarrow>
           \<not> COOLDOWN_MODE (recordRateLimitFailure t1 s)
           \<and> \<not> COOLDOWN_MODE (recordRateLimitFailure t2 (recordRateLimitFailure t1 s)))"
  using assms
  by (auto simp: recordRateLimitFailure_def triggerCooldown_def Let_def RATE_LIMIT_THRESHOLD_def)

lemma stop_trader_sessions_other:
  "u \<noteq> v \<Longrightarrow> userSessions (stop_trader v s) u = userSessions s u"
  by (simp add: stop_trader_def split: option.splits)

lemma stop_trader_sessions:
  "bot_obj s \<Longrightarrow> userSessions (stop_trader v s) u =
     (if u = v then map_option (\<lambda>x. x\<lparr>botRunning := False\<rparr>) (userSessions s u)
      else userSessions s u)"
  by (simp add: stop_trader_def split: option.splits)

lemma stop_trader_bot: "bot_obj (stop_trader v s) = bot_obj s"
  by (simp add: stop_trader_def split: option.splits)

lemma fold_stop_trader_stopped:
  assumes "bot_obj s"
  shows "userSessions (fold stop_trader us s) u =
           (if u \<in> set us then map_option (\<lambda>x. x\<lparr>botRunning := False\<rparr>) (userSessions s u)
            else userSessions s u)"
  using assms
proof (induction us arbitrary: s)
  case Nil
  then show ?case by simp
next
  case (Cons v us)
  have b: "bot_obj (stop_trader v s)"
    using Cons.prems by (simp add: stop_trader_bot)
  have "userSessions (fold stop_trader (v # us) s) u
      = (if u \<in> set us
         then map_option (\<lambda>x. x\<lparr>botRunning := False\<rparr>) (userSessions (stop_trader v s) u)
         else userSessions (stop_trader v s) u)"
    by (simp add: Cons.IH [OF b])
  also have "\<dots> = (if u \<in> set (v # us)
                   then map_option (\<lambda>x. x\<lparr>botRunning := False\<rparr>) (userSessions s u)
                   else userSessions s u)"
    using Cons.prems by (cases "userSessions s u") (auto simp: stop_trader_sessions)
  finally show ?case .
qed

lemma fold_stop_trader_sent_mono:
  "set (sentMessages s) \<subseteq> set (sentMessages (fold stop_trader us s))"
  by (induction us arbitrary: s) (force simp: stop_trader_def split: option.splits)+

lemma chatId_stopped: "chatId (x\<lparr>botRunning := False\<rparr>) = chatId x"
  by simp

lemma fold_stop_trader_alert:
  assumes "bot_obj s" and "u \<in> set us" and "userSessions s u = Some x"
  shows "(chatId x, BOT_AUTO_STOPPED (consecutiveCooldowns s)) \<in> set (sentMessages (fold stop_trader us s))"
  using assms
proof (induction us arbitrary: s x)
  case Nil
  then show ?case by simp
next
  case (Cons v us)
  have b: "bot_obj (stop_trader v s)"
    using Cons.prems by (simp add: stop_trader_def split: option.splits)
  have c: "consecutiveCooldowns (stop_trader v s) = consecutiveCooldowns s"
    by (simp add: stop_trader_def split: option.splits)
  show ?case
  proof (cases "u = v")
    case True
    have "(chatId x, BOT_AUTO_STOPPED (consecutiveCooldowns s)) \<in> set (sentMessages (stop_trader v s))"
      using Cons.prems True by (simp add: stop_trader_def)
    then show ?thesis
      using fold_stop_trader_sent_mono [of "stop_trader v s" us] by auto
  next
    case False
    then have "u \<in> set us" using Cons.prems by simp
    moreover have "userSessions (stop_trader v s) u = Some x"
      using False Cons.prems by (simp add: stop_trader_sessions_other)
    ultimately show ?thesis
      using Cons.IH [OF b, of x] c by simp
  qed
qed

text \<open>
  What the branch of \<open>triggerCooldown\<close> for the ceiling would do if it were entered with
  \<open>consecutiveCooldowns\<close> at 2 and the bot created: every active trader that has a session
  gets \<open>botRunning = false\<close>, which breaks its trading loops, and is sent the alert. The
  lemmas after it show that no run enters the branch.
\<close>

lemma ceiling_branch_stops_traders:
  "(consecutiveCooldowns s + 1 \<ge> MAX_CONSECUTIVE_COOLDOWNS \<and> bot_obj s \<longrightarrow>
      COOLDOWN_MODE (triggerCooldown now s)
      \<and> (\<forall>u \<in> set (activeTraders s). \<forall>x. userSessions s u = Some x \<longrightarrow>
            userSessions (triggerCooldown now s) u = Some (x\<lparr>botRunning := False\<rparr>)
          \<and> \<not> worker_continues u (triggerCooldown now s)
          \<and> (chatId x, BOT_AUTO_STOPPED (consecutiveCooldowns s + 1))
               \<in> set (sentMessages (triggerCooldown now s))))
   \<and> (COOLDOWN_MODE s' \<and> fst (checkAndExitCooldown env s') \<longrightarrow>
        consecutiveCooldowns (snd (checkAndExitCooldown env s')) = 0)"
proof (intro conjI impI)
  assume a: "consecutiveCooldowns s + 1 \<ge> MAX_CONSECUTIVE_COOLDOWNS \<and> bot_obj s"
  let ?s1 = "s\<lparr>COOLDOWN_MODE := True, cooldownStartTime := now, rateLimitFailureCount := 0,
                consecutiveCooldowns := consecutiveCooldowns s + 1\<rparr>"
  have t: "triggerCooldown now s = fold stop_trader (activeTraders s) ?s1"
    using a by (simp add: triggerCooldown_def Let_def)
  have b: "bot_obj ?s1" using a by simp
  show "COOLDOWN_MODE (triggerCooldown now s)" by (simp add: t)
  have 1: "userSessions (triggerCooldown now s) u = Some (x\<lparr>botRunning := False\<rparr>)"
    if "u \<in> set (activeTraders s)" "userSessions s u = Some x" for u x
    using that by (simp add: t fold_stop_trader_stopped [OF b])
  have 2: "(chatId x, BOT_AUTO_STOPPED (consecutiveCooldowns s + 1))
               \<in> set (sentMessages (triggerCooldown now s))"
    if "u \<in> set (activeTraders s)" "userSessions s u = Some x" for u x
    using fold_stop_trader_alert [OF b, of u "activeTraders s" x] that by (simp add: t)
  show "\<forall>u \<in> set (activeTraders s). \<forall>x. userSessions s u = Some x \<longrightarrow>
            userSessions (triggerCooldown now s) u = Some (x\<lparr>botRunning := False\<rparr>)
          \<and> \<not> worker_continues u (triggerCooldown now s)
          \<and> (chatId x, BOT_AUTO_STOPPED (consecutiveCooldowns s + 1))
               \<in> set (sentMessages (triggerCooldown now s))"
    using 1 2 by (auto simp: worker_continues_def)
next
  assume "COOLDOWN_MODE s' \<and> fst (checkAndExitCooldown env s')"
  then show "consecutiveCooldowns (snd (checkAndExitCooldown env s')) = 0"
    by (auto simp: checkAndExitCooldown_def resume_trading_def Let_def split: if_splits)
qed

lemma run_timeouts_last:
  assumes "timeouts s = ts @ [(due, rate)]" and "due \<le> now"
  shows "jupiterQueue (run_timeouts now s)
           = setRequestsPerSecond rate
               (fold (\<lambda>(due, rate) q. if due \<le> now then setRequestsPerSecond rate q else q)
                  ts (jupiterQueue s))"
  using assms by (simp add: run_timeouts_def)

text \<open>
  Claim C6. Whenever \<open>checkAndExitCooldown\<close>, called in cooldown, returns true, whatever ran
  while it was suspended: \<open>COOLDOWN_MODE\<close> is false, \<open>rateLimitFailureCount\<close> and
  \<open>consecutiveCooldowns\<close> are 0, the queue runs at 2 requests per second (half of the nominal
  4; \<open>minDelay\<close> 500 ms), and a timeout is pending that, 120000 ms later, sets the rate back
  to 4 (\<open>minDelay\<close> 250 ms).
\<close>

theorem exit_cooldown_resets_and_slows:
  assumes "COOLDOWN_MODE s" and "fst (checkAndExitCooldown env s)"
  shows "\<not> COOLDOWN_MODE (snd (checkAndExitCooldown env s))
       \<and> rateLimitFailureCount (snd (checkAndExitCooldown env s)) = 0
       \<and> consecutiveCooldowns (snd (checkAndExitCooldown env s)) = 0
       \<and> requestsPerSecond (jupiterQueue (snd (checkAndExitCooldown env s))) = 2
       \<and> requestsPerSecond (jupiterQueue (snd (checkAndExitCooldown env s)))
           = requestsPerSecond RequestQueue_new / 2
       \<and> minDelay (jupiterQueue (snd (checkAndExitCooldown env s))) = 500
       \<and> (exited env + 120000, 4) \<in> set (timeouts (snd (checkAndExitCooldown env s)))
       \<and> requestsPerSecond (jupiterQueue
             (run_timeouts (exited env + 120000) (snd (checkAndExitCooldown env s)))) = 4
       \<and> minDelay (jupiterQueue
             (run_timeouts (exited env + 120000) (snd (checkAndExitCooldown env s)))) = 250"
proof -
  let ?s2 = "meanwhile2 env (meanwhile1 env s)"
  have r: "snd (checkAndExitCooldown env s) = resume_trading (exited env) ?s2"
    using assms by (auto simp: checkAndExitCooldown_def Let_def split: if_splits)
  have t: "timeouts (resume_trading (exited env) ?s2)
             = timeouts ?s2 @ [(exited env + 120000, 4)]"
    by (simp add: resume_trading_def Let_def)
  have 1: "\<not> COOLDOWN_MODE (resume_trading (exited env) ?s2)"
    "rateLimitFailureCount (resume_trading (exited env) ?s2) = 0"
    "consecutiveCooldowns (resume_trading (exited env) ?s2) = 0"
    "requestsPerSecond (jupiterQueue (resume_trading (exited env) ?s2)) = 2"
    "minDelay (jupiterQueue (resume_trading (exited env) ?s2)) = 500"
    by (simp_all add: resume_trading_def Let_def setRequestsPerSecond_def)
  have 2: "requestsPerSecond (jupiterQueue
             (run_timeouts (exited env + 120000) (resume_trading (exited env) ?s2))) = 4"
    "minDelay (jupiterQueue
             (run_timeouts (exited env + 120000) (resume_trading (exited env) ?s2))) = 250"
    by (simp_all add: run_timeouts_last [OF t] setRequestsPerSecond_def Let_def)
  show ?thesis
    unfolding r using 1 2 t by (simp add: RequestQueue_new_def)
qed

lemmas coord_eval = Coordinator_init_def recordRateLimitFailure_def triggerCooldown_def
  checkAndExitCooldown_def resume_trading_def stop_trader_def notify_complete_def
  setRequestsPerSecond_def RequestQueue_new_def run_timeouts_def worker_continues_def
  RATE_LIMIT_THRESHOLD_def FAILURE_WINDOW_def MAX_CONSECUTIVE_COOLDOWNS_def COOLDOWN_DURATION_def
  Let_def

theorem cooldown_entry_threshold_witness:
  "\<not> COOLDOWN_MODE (Coordinator_init :: unit Coordinator)
   \<and> 0 \<le> rateLimitFailureCount (Coordinator_init :: unit Coordinator)
   \<and> (6000::int) - 1000 \<le> FAILURE_WINDOW
   \<and> COOLDOWN_MODE (recordRateLimitFailure 6000
         (recordRateLimitFailure 1000 (Coordinator_init :: unit Coordinator)))
   \<and> rateLimitFailureCount (Coordinator_init :: unit Coordinator) = 0
   \<and> (12000::int) - 1000 > FAILURE_WINDOW
   \<and> \<not> COOLDOWN_MODE (recordRateLimitFailure 12000
         (recordRateLimitFailure 1000 (Coordinator_init :: unit Coordinator)))"
  using cooldown_entry_threshold [of "Coordinator_init :: unit Coordinator" 6000 1000]
    cooldown_entry_threshold [of "Coordinator_init :: unit Coordinator" 12000 1000]
  by (simp add: Coordinator_init_def FAILURE_WINDOW_def)

theorem exit_cooldown_resets_and_slows_witness:
  "COOLDOWN_MODE (recordRateLimitFailure 2000
       (recordRateLimitFailure 1000 (Coordinator_init :: unit Coordinator)))
   \<and> fst (checkAndExitCooldown
         \<lparr>entered = 70000, rateLimitTestPassed = True, resumptionTestPassed = True,
          extended = 0, exited = 120000, meanwhile1 = recordRateLimitFailure 80000,
          meanwhile2 = recordRateLimitFailure 90000\<rparr>
         (recordRateLimitFailure 2000
           (recordRateLimitFailure 1000 (Coordinator_init :: unit Coordinator))))
   \<and> minDelay (jupiterQueue (snd (checkAndExitCooldown
         \<lparr>entered = 70000, rateLimitTestPassed = True, resumptionTestPassed = True,
          extended = 0, exited = 120000, meanwhile1 = recordRateLimitFailure 80000,
          meanwhile2 = recordRateLimitFailure 90000\<rparr>
         (recordRateLimitFailure 2000
           (recordRateLimitFailure 1000 (Coordinator_init :: unit Coordinator)))))) = 500
   \<and> rateLimitFailureCount (snd (checkAndExitCooldown
         \<lparr>entered = 70000, rateLimitTestPassed = True, resumptionTestPassed = True,
          extended = 0, exited = 120000, meanwhile1 = recordRateLimitFailure 80000,
          meanwhile2 = recordRateLimitFailure 90000\<rparr>
         (recordRateLimitFailure 2000
           (recordRateLimitFailure 1000 (Coordinator_init :: unit Coordinator))))) = 0"
proof -
  let ?s = "recordRateLimitFailure 2000
       (recordRateLimitFailure 1000 (Coordinator_init :: unit Coordinator))"
  let ?env = "\<lparr>entered = 70000, rateLimitTestPassed = True, resumptionTestPassed = True,
          extended = 0, exited = 120000,
          meanwhile1 = recordRateLimitFailure 80000 :: unit Coordinator \<Rightarrow> unit Coordinator,
          meanwhile2 = recordRateLimitFailure 90000\<rparr>"
  have a: "COOLDOWN_MODE ?s" "fst (checkAndExitCooldown ?env ?s)"
    by (simp_all add: coord_eval)
  from exit_cooldown_resets_and_slows [OF a] a show ?thesis by blast
qed

text \<open>
  \<open>triggerCooldown\<close> is called only from \<open>recordRateLimitFailure\<close>, and only outside cooldown;
  the only assignment that leaves cooldown also zeroes \<open>consecutiveCooldowns\<close>, and a failed
  recovery test only moves \<open>cooldownStartTime\<close>. So, as long as whatever runs while
  \<open>checkAndExitCooldown\<close> is suspended does the same, the counter is 1 in cooldown and 0
  outside, and the branch of \<open>triggerCooldown\<close> for the ceiling of 3 is not taken from such a
  state.
\<close>

lemma escalation_inv_steps:
  assumes "escalation_inv s"
  shows "escalation_inv (recordRateLimitFailure now s)"
    and "escalation_inv (resetCooldownCounters s)"
    and "(\<And>x. escalation_inv x \<Longrightarrow> COOLDOWN_MODE x \<Longrightarrow>
            escalation_inv (meanwhile1 env x) \<and> COOLDOWN_MODE (meanwhile1 env x)) \<Longrightarrow>
         (\<And>x. escalation_inv x \<Longrightarrow> COOLDOWN_MODE x \<Longrightarrow>
            escalation_inv (meanwhile2 env x) \<and> COOLDOWN_MODE (meanwhile2 env x)) \<Longrightarrow>
         escalation_inv (snd (checkAndExitCooldown env s))"
proof -
  show "escalation_inv (recordRateLimitFailure now s)"
    using assms
    by (auto simp: escalation_inv_def recordRateLimitFailure_def triggerCooldown_def Let_def
        MAX_CONSECUTIVE_COOLDOWNS_def split: if_splits)
  show "escalation_inv (resetCooldownCounters s)"
    using assms by (simp add: escalation_inv_def resetCooldownCounters_def)
  assume m1: "\<And>x. escalation_inv x \<Longrightarrow> COOLDOWN_MODE x \<Longrightarrow>
            escalation_inv (meanwhile1 env x) \<and> COOLDOWN_MODE (meanwhile1 env x)"
    and m2: "\<And>x. escalation_inv x \<Longrightarrow> COOLDOWN_MODE x \<Longrightarrow>
            escalation_inv (meanwhile2 env x) \<and> COOLDOWN_MODE (meanwhile2 env x)"
  show "escalation_inv (snd (checkAndExitCooldown env s))"
  proof (cases "COOLDOWN_MODE s")
    case False
    then show ?thesis using assms by (simp add: checkAndExitCooldown_def)
  next
    case True
    note a = m1 [OF assms True]
    note b = m2 [OF a [THEN conjunct1] a [THEN conjunct2]]
    have r: "escalation_inv (resume_trading t x)" for t and x :: "'a Coordinator"
      by (simp add: escalation_inv_def resume_trading_def Let_def)
    have e: "escalation_inv x \<Longrightarrow> escalation_inv (x\<lparr>cooldownStartTime := t\<rparr>)"
      for t and x :: "'a Coordinator"
      by (simp add: escalation_inv_def)
    show ?thesis
      using assms a b r e by (simp add: checkAndExitCooldown_def Let_def)
  qed
qed

lemma escalation_inv_init: "escalation_inv Coordinator_init"
  by (simp add: escalation_inv_def Coordinator_init_def)

text \<open>
  From a state with the counter at 1 in cooldown and 0 outside, which is every state the
  coordinator's functions produce, recording a rate-limit failure stops no trader and raises
  no alert, and the counter stays at most 1.
\<close>

lemma recorded_failure_stops_nobody:
  assumes "escalation_inv s"
  shows "consecutiveCooldowns (recordRateLimitFailure now s) \<le> 1
       \<and> userSessions (recordRateLimitFailure now s) = userSessions s
       \<and> sentMessages (recordRateLimitFailure now s) = sentMessages s"
  using assms
  by (auto simp: escalation_inv_def recordRateLimitFailure_def triggerCooldown_def Let_def
      MAX_CONSECUTIVE_COOLDOWNS_def split: if_splits)

text \<open>
  Claim C5 fails on the code. Two rate-limit failures enter cooldown; then the recovery test
  fails three times in a row, each time after the hold, with further rate-limit failures
  recorded in between. Each failed recovery only moves \<open>cooldownStartTime\<close>: the coordinator
  stays in cooldown with \<open>consecutiveCooldowns = 1\<close>, the trader's \<open>botRunning\<close> is still true,
  its loop guard still passes and no alert was sent. The constant is commented
  "Stop bot if cooldown fails 3 times in a row".
\<close>

theorem ceiling_not_reached_when_recovery_fails:
  "(let s1 = recordRateLimitFailure 2000 (recordRateLimitFailure 1000 one_trader);
        r1 = checkAndExitCooldown (recovery_fails 70000) s1;
        r2 = checkAndExitCooldown (recovery_fails 140000) (snd r1);
        r3 = checkAndExitCooldown (recovery_fails 210000) (snd r2)
    in COOLDOWN_MODE s1 \<and> consecutiveCooldowns s1 = 1
       \<and> fst r1 = False \<and> fst r2 = False \<and> fst r3 = False
       \<and> COOLDOWN_MODE (snd r3)
       \<and> cooldownStartTime (snd r3) = 215000
       \<and> consecutiveCooldowns (snd r3) = 1
       \<and> userSessions (snd r3) 7 = Some \<lparr>chatId = 70, botRunning = True\<rparr>
       \<and> worker_continues 7 (snd r3) = True
       \<and> sentMessages (snd r3) = [])"
  by (simp add: coord_eval one_trader_def recovery_fails_def)


section \<open>Execution queue: proofs\<close>

lemmas rq_defs = add_def process_def wait_concurrent_def enforce_delay_def dispatch_def clearQueue_def setRequestsPerSecond_def

lemma run_snoc: "run (es @ [e]) q = (case run es q of None \<Rightarrow> None | Some q' \<Rightarrow> step e q')"
  by (induction es arbitrary: q) (auto split: option.splits)

lemma control_inv_new: "control_inv RequestQueue_new"
  by (simp add: control_inv_def RequestQueue_new_def)

lemma short_list: "length xs \<le> Suc 0 \<Longrightarrow> Suc 0 \<noteq> length xs \<Longrightarrow> xs = []"
  by (cases xs) auto

lemma int_length_remove1:
  assumes "i \<in> set xs"
  shows "int (length (remove1 i xs)) = int (length xs) - 1"
proof -
  have "1 \<le> length xs" using assms by (cases xs) auto
  then show ?thesis using assms by (simp add: length_remove1)
qed

lemma control_inv_step:
  assumes "control_inv q" and "step te q = Some q'"
  shows "control_inv q'"
proof (cases "snd te")
  case (Add p)
  then show ?thesis using assms
    by (auto simp: step_def control_inv_def rq_defs Let_def split: if_splits list.splits intro: short_list)
next
  case WakeConcurrent
  then show ?thesis using assms
    by (auto simp: step_def control_inv_def rq_defs Let_def split: if_splits list.splits drain_loop.splits intro: short_list)
next
  case WakeDelay
  then show ?thesis using assms
    by (auto simp: step_def control_inv_def rq_defs Let_def split: if_splits list.splits drain_loop.splits intro: short_list)
next
  case Timer
  then show ?thesis using assms
    by (auto simp: step_def control_inv_def rq_defs Let_def split: if_splits list.splits drain_loop.splits intro: short_list)
next
  case (Settle i out)
  then show ?thesis using assms
    by (auto simp: step_def control_inv_def Let_def split: if_splits)
next
  case (Finally i)
  then show ?thesis using assms
    by (auto simp: step_def control_inv_def Let_def int_length_remove1 split: if_splits)
next
  case ClearQueue
  then show ?thesis using assms
    by (auto simp: step_def control_inv_def rq_defs Let_def split: if_splits)
next
  case (SetRequestsPerSecond r)
  then show ?thesis using assms
    by (auto simp: step_def control_inv_def rq_defs Let_def split: if_splits)
qed

lemma control_inv_run:
  "control_inv q \<Longrightarrow> run es q = Some q' \<Longrightarrow> control_inv q'"
  by (induction es arbitrary: q) (auto split: option.splits intro: control_inv_step)

lemma dispatch_effect: "keeps q (dispatch t q) \<or> shifts t q (dispatch t q)"
  by (cases "queue q") (simp_all add: dispatch_def keeps_def shifts_def)

lemma enforce_delay_effect: "keeps q (enforce_delay t q) \<or> shifts t q (enforce_delay t q)"
  using dispatch_effect [of q t] by (simp add: enforce_delay_def Let_def keeps_def)

lemma wait_concurrent_effect: "keeps q (wait_concurrent t q) \<or> shifts t q (wait_concurrent t q)"
  using enforce_delay_effect [of q t] by (simp add: wait_concurrent_def keeps_def)

lemma keeps_shifts_update:
  "keeps (q\<lparr>processing := b\<rparr>) q' = keeps q q'"
  "shifts t (q\<lparr>processing := b\<rparr>) q' = shifts t q q'"
  "keeps (q\<lparr>clock := c\<rparr>) q' = keeps q q'"
  "shifts t (q\<lparr>clock := c\<rparr>) q' = shifts t q q'"
  by (simp_all add: keeps_def shifts_def)

lemma process_effect: "keeps q (process t q) \<or> shifts t q (process t q)"
proof (cases "queue q")
  case Nil
  then show ?thesis by (simp add: process_def keeps_def)
next
  case (Cons fn rest)
  then show ?thesis
    using wait_concurrent_effect [of "q\<lparr>processing := True\<rparr>" t]
    by (simp add: process_def keeps_shifts_update)
qed

lemma add_effect:
  "\<exists>q1. enqueued p q q1 \<and> (keeps q1 (add t p q) \<or> shifts t q1 (add t p q))"
proof -
  let ?q1 = "q\<lparr>submitted := submitted q @ [p]\<rparr>"
  let ?q2 = "if p = High then ?q1\<lparr>queue := length (submitted q) # queue ?q1\<rparr>
             else ?q1\<lparr>queue := queue ?q1 @ [length (submitted q)]\<rparr>"
  have e: "enqueued p q ?q2" by (simp add: enqueued_def)
  have a: "add t p q = (if \<not> processing ?q2 then process t ?q2 else ?q2)"
    by (simp add: add_def Let_def)
  have "keeps ?q2 (add t p q) \<or> shifts t ?q2 (add t p q)"
    unfolding a using process_effect [of ?q2 t] by (simp add: keeps_def)
  with e show ?thesis by blast
qed

lemma precedes_snoc:
  "precedes a b (xs @ [y]) \<longleftrightarrow> precedes a b xs \<or> (a \<in> set xs \<and> b = y)"
  by (induction xs) auto

lemma keeps_invs:
  assumes "keeps q q'"
  shows "accounted q' = accounted q" and "work_ok q' = work_ok q" and "ordered q' = ordered q"
  using assms by (simp_all add: keeps_def accounted_def work_ok_def ordered_def dispatch_order_def)

lemma shifts_order: "shifts t q q' \<Longrightarrow> \<exists>fn rest. queue q = fn # rest \<and> queue q' = rest \<and>
   dispatch_order q' = dispatch_order q @ [fn]"
  by (auto simp: shifts_def dispatch_order_def)

lemma shifts_accounted:
  assumes "shifts t q q'" and "accounted q"
  shows "accounted q'"
proof -
  from shifts_order [OF assms(1)] obtain fn rest where
    q: "queue q = fn # rest" "queue q' = rest" "dispatch_order q' = dispatch_order q @ [fn]"
    by blast
  have s: "submitted q' = submitted q" "cleared q' = cleared q"
    using assms(1) by (simp_all add: shifts_def)
  show ?thesis
    using assms(2) unfolding accounted_def q s by auto
qed

lemma shifts_work_ok:
  assumes "shifts t q q'" and "accounted q" and "work_ok q"
  shows "work_ok q'"
proof -
  from shifts_order [OF assms(1)] obtain fn rest where
    q: "queue q = fn # rest" "queue q' = rest" "dispatch_order q' = dispatch_order q @ [fn]"
    by blast
  have r: "running q' = running q @ [fn]" "settled q' = settled q"
    using assms(1) q(1) by (auto simp: shifts_def)
  have "fn \<notin> set (dispatch_order q)"
    using assms(2) q(1) by (auto simp: accounted_def)
  then show ?thesis
    using assms(3) unfolding work_ok_def q r by auto
qed

lemma shifts_ordered:
  assumes sh: "shifts t q q'" and acc: "accounted q" and ord: "ordered q"
  shows "ordered q'"
proof -
  from sh obtain fn rest where
    q: "queue q = fn # rest" "queue q' = rest"
       "dispatched q' = dispatched q @ [(fn, t, length (submitted q))]"
    by (auto simp: shifts_def)
  have ids: "dispatch_order q' = dispatch_order q @ [fn]"
    using q(3) by (simp add: dispatch_order_def)
  have s: "submitted q' = submitted q" "cleared q' = cleared q"
    using sh by (simp_all add: shifts_def)
  let ?sub = "submitted q" and ?ids = "dispatch_order q"
  note o = ord [unfolded ordered_def q]
  note o1 = o [THEN conjunct1]
    and o2 = o [THEN conjunct2, THEN conjunct1]
    and o3 = o [THEN conjunct2, THEN conjunct2, THEN conjunct1]
    and o4 = o [THEN conjunct2, THEN conjunct2, THEN conjunct2, THEN conjunct1]
    and o5 = o [THEN conjunct2, THEN conjunct2, THEN conjunct2, THEN conjunct2, THEN conjunct1]
    and o6 = o [THEN conjunct2, THEN conjunct2, THEN conjunct2, THEN conjunct2, THEN conjunct2]
  from acc have
    a1: "fn < length ?sub" and a2: "fn \<notin> set ?ids" and a3: "fn \<notin> set rest" and
    a4: "\<And>i. i < length ?sub \<Longrightarrow> i \<in> set (fn # rest) \<or> i \<in> set ?ids \<or> i \<in> set (cleared q)"
    unfolding accounted_def q by auto
  have head: "\<And>z. z \<in> set rest \<Longrightarrow> ahead ?sub fn z"
    using o1 by simp
  have n1: "sorted_wrt (ahead ?sub) rest" using o1 by simp
  have n2: "\<forall>c \<in> set (cleared q). \<forall>z \<in> set rest. c < z" using o2 by simp
  have n3: "\<forall>(x, t, k) \<in> set (dispatched q @ [(fn, t, length ?sub)]). x < k \<and> k \<le> length ?sub"
    using o3 a1 by auto
  have n4: "\<forall>m \<in> set (?ids @ [fn]). ?sub ! m = Normal \<longrightarrow> (\<forall>z \<in> set rest. m < z)"
  proof (intro ballI impI)
    fix m z assume m: "m \<in> set (?ids @ [fn])" "?sub ! m = Normal" and z: "z \<in> set rest"
    show "m < z"
    proof (cases "m = fn")
      case True
      with head [OF z] m(2) show ?thesis by (simp add: ahead_def)
    next
      case False
      with m o4 z show ?thesis by auto
    qed
  qed
  have n5: "\<forall>x \<in> set (?ids @ [fn]). \<forall>m \<in> set (?ids @ [fn]).
              x < m \<and> ?sub ! m = Normal \<longrightarrow> precedes x m (?ids @ [fn])"
  proof (intro ballI impI)
    fix x m assume x: "x \<in> set (?ids @ [fn])" and m: "m \<in> set (?ids @ [fn])"
      and xm: "x < m \<and> ?sub ! m = Normal"
    show "precedes x m (?ids @ [fn])"
    proof (cases "m = fn")
      case True
      with xm x have "x \<in> set ?ids" by auto
      with True show ?thesis by (simp add: precedes_snoc)
    next
      case False
      then have mi: "m \<in> set ?ids" using m by simp
      have "x \<noteq> fn"
      proof
        assume "x = fn"
        moreover have "m < fn" using o4 mi xm by simp
        ultimately show False using xm by simp
      qed
      then have "x \<in> set ?ids" using x by simp
      with o5 mi xm show ?thesis by (simp add: precedes_snoc)
    qed
  qed
  have n6: "\<forall>(x, t', k) \<in> set (dispatched q @ [(fn, t, length ?sub)]).
              \<forall>h. x < h \<and> h < k \<and> ?sub ! h = High \<longrightarrow> precedes h x (?ids @ [fn])"
  proof (intro ballI, clarify)
    fix x t' k h
    assume e: "(x, t', k) \<in> set (dispatched q @ [(fn, t, length ?sub)])"
      and h: "x < h" "h < k" "?sub ! h = High"
    show "precedes h x (?ids @ [fn])"
    proof (cases "(x, t', k) \<in> set (dispatched q)")
      case True
      with o6 h show ?thesis by (auto simp: precedes_snoc)
    next
      case False
      with e have x: "x = fn" "k = length ?sub" by auto
      have "h \<notin> set (fn # rest)"
      proof
        assume "h \<in> set (fn # rest)"
        with h(1) x have "h \<in> set rest" by auto
        from head [OF this] h show False by (auto simp: ahead_def x)
      qed
      moreover have "h \<notin> set (cleared q)"
      proof
        assume "h \<in> set (cleared q)"
        with o2 have "h < fn" by simp
        with h(1) x show False by simp
      qed
      ultimately have "h \<in> set ?ids" using a4 [of h] h(2) x by blast
      then show ?thesis by (simp add: precedes_snoc x)
    qed
  qed
  show ?thesis
    unfolding ordered_def q ids s by (intro conjI n1 n2 n3 n4 n5 n6)
qed

lemma ahead_append:
  "a < length sub \<Longrightarrow> b < length sub \<Longrightarrow> ahead (sub @ [p]) a b = ahead sub a b"
  by (simp add: ahead_def nth_append)

lemma accounted_bound:
  assumes "accounted q"
  shows "\<And>i. i \<in> set (queue q) \<Longrightarrow> i < length (submitted q)"
    and "\<And>i. i \<in> set (dispatch_order q) \<Longrightarrow> i < length (submitted q)"
    and "\<And>i. i \<in> set (cleared q) \<Longrightarrow> i < length (submitted q)"
  using assms unfolding accounted_def by auto

lemma enqueued_accounted:
  assumes "enqueued p q q1" and "accounted q"
  shows "accounted q1"
proof -
  have n: "length (submitted q) \<notin> set (queue q @ dispatch_order q @ cleared q)"
    using assms(2) unfolding accounted_def by simp
  have d: "dispatch_order q1 = dispatch_order q"
    using assms(1) by (simp add: enqueued_def dispatch_order_def)
  show ?thesis
    using assms n unfolding accounted_def enqueued_def d
    by (cases "p = High") (auto simp: lessThan_Suc)
qed

lemma enqueued_work_ok:
  assumes "enqueued p q q1" and "work_ok q"
  shows "work_ok q1"
  using assms by (simp add: enqueued_def work_ok_def dispatch_order_def)

lemma enqueued_ordered:
  assumes en: "enqueued p q q1" and acc: "accounted q" and ord: "ordered q"
  shows "ordered q1"
proof -
  let ?sub = "submitted q" and ?ids = "dispatch_order q" and ?n = "length (submitted q)"
  note b = accounted_bound [OF acc]
  have e: "submitted q1 = ?sub @ [p]" "dispatched q1 = dispatched q" "cleared q1 = cleared q"
    "queue q1 = (if p = High then ?n # queue q else queue q @ [?n])"
    using en by (simp_all add: enqueued_def)
  have ids: "dispatch_order q1 = ?ids" using e(2) by (simp add: dispatch_order_def)
  note o = ord [unfolded ordered_def]
  note o1 = o [THEN conjunct1]
    and o2 = o [THEN conjunct2, THEN conjunct1]
    and o3 = o [THEN conjunct2, THEN conjunct2, THEN conjunct1]
    and o4 = o [THEN conjunct2, THEN conjunct2, THEN conjunct2, THEN conjunct1]
    and o5 = o [THEN conjunct2, THEN conjunct2, THEN conjunct2, THEN conjunct2, THEN conjunct1]
    and o6 = o [THEN conjunct2, THEN conjunct2, THEN conjunct2, THEN conjunct2, THEN conjunct2]
  have old: "sorted_wrt (ahead (?sub @ [p])) (queue q)"
    using o1 by (rule sorted_wrt_mono_rel [rotated]) (simp add: ahead_append b(1))
  have n1: "sorted_wrt (ahead (?sub @ [p])) (queue q1)"
  proof (cases "p = High")
    case True
    then show ?thesis using old b(1) by (auto simp: e ahead_def nth_append)
  next
    case False
    then have "p = Normal" by (cases p) auto
    then show ?thesis using old b(1) by (auto simp: e sorted_wrt_append ahead_def nth_append)
  qed
  have n2: "\<forall>c \<in> set (cleared q). \<forall>z \<in> set (queue q1). c < z"
    using o2 b(3) by (auto simp: e)
  have n3: "\<forall>(x, t, k) \<in> set (dispatched q). x < k \<and> k \<le> length (?sub @ [p])"
    using o3 by auto
  have n4: "\<forall>m \<in> set ?ids. (?sub @ [p]) ! m = Normal \<longrightarrow> (\<forall>z \<in> set (queue q1). m < z)"
    using o4 b(2) by (auto simp: e nth_append)
  have n5: "\<forall>x \<in> set ?ids. \<forall>m \<in> set ?ids.
              x < m \<and> (?sub @ [p]) ! m = Normal \<longrightarrow> precedes x m ?ids"
    using o5 b(2) by (auto simp: nth_append)
  have n6: "\<forall>(x, t, k) \<in> set (dispatched q).
              \<forall>h. x < h \<and> h < k \<and> (?sub @ [p]) ! h = High \<longrightarrow> precedes h x ?ids"
  proof (intro ballI, clarify)
    fix x t k h
    assume d: "(x, t, k) \<in> set (dispatched q)" and h: "x < h" "h < k" "(?sub @ [p]) ! h = High"
    from o3 d have "k \<le> ?n" by auto
    with h have "?sub ! h = High" by (simp add: nth_append)
    with o6 d h show "precedes h x ?ids" by blast
  qed
  show ?thesis
    unfolding ordered_def e(1,2,3) ids by (intro conjI n1 n2 n3 n4 n5 n6)
qed

lemma clear_invs:
  assumes "queue q' = []" and "cleared q' = cleared q @ queue q"
    and "submitted q' = submitted q" and "dispatched q' = dispatched q"
    and "running q' = running q" and "settled q' = settled q"
  shows "accounted q \<Longrightarrow> accounted q'" and "work_ok q \<Longrightarrow> work_ok q'"
    and "ordered q \<Longrightarrow> ordered q'"
  using assms unfolding accounted_def work_ok_def ordered_def dispatch_order_def
  by auto

lemma hist_inv_new: "hist_inv (setRequestsPerSecond r RequestQueue_new)"
  by (simp add: hist_inv_def accounted_def work_ok_def ordered_def dispatch_order_def
      setRequestsPerSecond_def RequestQueue_new_def Let_def)

lemma hist_inv_keeps: "keeps q q' \<Longrightarrow> hist_inv q \<Longrightarrow> hist_inv q'"
  by (simp add: hist_inv_def keeps_invs)

lemma hist_inv_shifts: "shifts t q q' \<Longrightarrow> hist_inv q \<Longrightarrow> hist_inv q'"
  by (simp add: hist_inv_def shifts_accounted shifts_work_ok shifts_ordered)

lemma hist_inv_enqueued: "enqueued p q q' \<Longrightarrow> hist_inv q \<Longrightarrow> hist_inv q'"
  by (simp add: hist_inv_def enqueued_accounted enqueued_work_ok enqueued_ordered)

lemma hist_inv_clock: "hist_inv (q\<lparr>clock := t\<rparr>) = hist_inv q"
  by (simp add: hist_inv_def accounted_def work_ok_def ordered_def dispatch_order_def)

lemma hist_inv_settle:
  assumes "hist_inv q" and "i \<in> set (running q)" and "i \<notin> fst ` set (settled q)"
  shows "hist_inv (q\<lparr>settled := settled q @ [(i, out)]\<rparr>)"
  using assms
  by (auto simp: hist_inv_def accounted_def work_ok_def ordered_def dispatch_order_def)

lemma hist_inv_finally:
  assumes "hist_inv q" and "i \<in> set (running q)" and "i \<in> fst ` set (settled q)"
  shows "hist_inv (q\<lparr>activeRequests := a, running := remove1 i (running q)\<rparr>)"
proof -
  have w: "work_ok q" using assms(1) by (simp add: hist_inv_def)
  then have d: "distinct (running q)" by (simp add: work_ok_def)
  have "work_ok (q\<lparr>activeRequests := a, running := remove1 i (running q)\<rparr>)"
    using w assms(3) unfolding work_ok_def
    by (auto simp: dispatch_order_def set_remove1_eq [OF d])
  then show ?thesis
    using assms(1)
    by (simp add: hist_inv_def accounted_def ordered_def dispatch_order_def)
qed

lemma hist_inv_step:
  assumes "hist_inv q" and "step te q = Some q'"
  shows "hist_inv q'"
proof -
  let ?t = "fst te" and ?q = "q\<lparr>clock := fst te\<rparr>"
  have h: "hist_inv ?q" using assms(1) by (simp add: hist_inv_clock)
  have ks: "\<And>q''. keeps ?q q'' \<or> shifts ?t ?q q'' \<Longrightarrow> hist_inv q''"
    using h hist_inv_keeps hist_inv_shifts by blast
  show ?thesis
  proof (cases "snd te")
    case (Add p)
    then have q': "q' = add ?t p ?q"
      using assms(2) by (simp add: step_def Let_def split: if_splits)
    from add_effect [of p ?q ?t] obtain q1 where
      "enqueued p ?q q1" "keeps q1 q' \<or> shifts ?t q1 q'"
      unfolding q' by blast
    then show ?thesis
      using h hist_inv_enqueued hist_inv_keeps hist_inv_shifts by blast
  next
    case WakeConcurrent
    then have "q' = wait_concurrent ?t ?q"
      using assms(2) by (simp add: step_def Let_def split: if_splits drain_loop.splits)
    then show ?thesis using ks wait_concurrent_effect by blast
  next
    case WakeDelay
    then have "q' = dispatch ?t ?q"
      using assms(2) by (simp add: step_def Let_def split: if_splits drain_loop.splits)
    then show ?thesis using ks dispatch_effect by blast
  next
    case Timer
    then have "q' = process ?t ?q"
      using assms(2) by (simp add: step_def Let_def split: if_splits drain_loop.splits)
    then show ?thesis using ks process_effect by blast
  next
    case (Settle i out)
    then have "i \<in> set (running ?q)" "i \<notin> fst ` set (settled ?q)"
      "q' = ?q\<lparr>settled := settled ?q @ [(i, out)]\<rparr>"
      using assms(2) by (simp_all add: step_def Let_def split: if_splits)
    then show ?thesis using hist_inv_settle [OF h] by simp
  next
    case (Finally i)
    then have "i \<in> set (running ?q)" "i \<in> fst ` set (settled ?q)"
      "q' = ?q\<lparr>activeRequests := activeRequests ?q - 1, running := remove1 i (running ?q)\<rparr>"
      using assms(2) by (simp_all add: step_def Let_def split: if_splits)
    then show ?thesis using hist_inv_finally [OF h] by simp
  next
    case ClearQueue
    then have q': "q' = clearQueue ?q"
      using assms(2) by (simp add: step_def Let_def split: if_splits)
    have "accounted q'" "work_ok q'" "ordered q'"
      using h clear_invs [of q' ?q] unfolding q' hist_inv_def
      by (simp_all add: clearQueue_def)
    then show ?thesis by (simp add: hist_inv_def)
  next
    case (SetRequestsPerSecond r)
    then have "q' = setRequestsPerSecond r ?q"
      using assms(2) by (simp add: step_def Let_def split: if_splits)
    then have "keeps ?q q'" by (simp add: keeps_def setRequestsPerSecond_def Let_def)
    then show ?thesis using ks by blast
  qed
qed

lemma hist_inv_run: "hist_inv q \<Longrightarrow> run es q = Some q' \<Longrightarrow> hist_inv q'"
  by (induction es arbitrary: q) (auto split: option.splits intro: hist_inv_step)

lemmas run_eval = step_def add_def process_def wait_concurrent_def enforce_delay_def dispatch_def
  clearQueue_def setRequestsPerSecond_def RequestQueue_new_def Let_def

text \<open>
  Claim C1 fails on the code. \<open>process()\<close> computes the length of the pacing sleep once, from
  the \<open>minDelay\<close> of that moment, and dispatches when the sleep ends without reading the clock
  or \<open>minDelay\<close> again (the wait for a free slot just above it is a \<open>while\<close> loop that does
  re-check). In this run the loop sleeps until 1250 under \<open>minDelay = 250\<close>; the rate is
  lowered to 2 per second at 1200; the second item is dispatched at 1250, only 250 ms after
  the first, although \<open>minDelay = 1000 / requestsPerSecond\<close> is 500 by then.
\<close>

theorem pacing_not_rechecked_after_sleep:
  "map_option drain (run (take 6 rate_lowered_trace) RequestQueue_new) = Some (WaitDelay 1250)
   \<and> map_option minDelay (run (take 6 rate_lowered_trace) RequestQueue_new) = Some 250
   \<and> map_option dispatch_times (run rate_lowered_trace RequestQueue_new) = Some [1000, 1250]
   \<and> map_option requestsPerSecond (run rate_lowered_trace RequestQueue_new) = Some 2
   \<and> map_option minDelay (run rate_lowered_trace RequestQueue_new) = Some 500"
  by (simp add: rate_lowered_trace_def run_eval dispatch_times_def)

text \<open>
  For the same reason the spacing rests on the timer alone: when the timer of the pacing
  sleep fires a millisecond early, the dispatch is 249 ms after the previous one under
  \<open>minDelay = 250\<close>.
\<close>

lemma timer_a_millisecond_early:
  "map_option drain (run (take 6 early_timer_trace) RequestQueue_new) = Some (WaitDelay 1250)
   \<and> map_option dispatch_times (run early_timer_trace RequestQueue_new) = Some [1000, 1249]
   \<and> map_option minDelay (run early_timer_trace RequestQueue_new) = Some 250"
  by (simp add: early_timer_trace_def run_eval dispatch_times_def)

lemma hist_inv_init: "hist_inv RequestQueue_new"
  by (simp add: hist_inv_def accounted_def work_ok_def ordered_def dispatch_order_def
      RequestQueue_new_def)

lemma unsettled_le_running:
  assumes "work_ok q" and "accounted q"
  shows "length (filter (\<lambda>i. i \<notin> fst ` set (settled q)) (dispatch_order q)) \<le> length (running q)"
proof -
  let ?u = "filter (\<lambda>i. i \<notin> fst ` set (settled q)) (dispatch_order q)"
  have d: "distinct ?u" using assms(2) by (simp add: accounted_def)
  have s: "set ?u \<subseteq> set (running q)" using assms(1) by (auto simp: work_ok_def)
  have "length ?u = card (set ?u)" using distinct_card [OF d] by (rule sym)
  also have "\<dots> \<le> card (set (running q))" using s by (simp add: card_mono)
  also have "\<dots> \<le> length (running q)" by (rule card_length)
  finally show ?thesis .
qed

text \<open>
  Claim C2. In every state the queue reaches, under any sequence of calls of its methods:
  \<open>activeRequests \<le> maxConcurrent = 1\<close>; \<open>activeRequests\<close> is the number of closures called
  whose \<open>finally\<close> callback has not run, so the dispatched items whose work has not completed
  are at most that many; and the \<open>finally\<close> callback after an item's work decrements
  \<open>activeRequests\<close> by one.
\<close>

theorem active_requests_bounded:
  assumes "run evs RequestQueue_new = Some q"
  shows "activeRequests q \<le> maxConcurrent q \<and> maxConcurrent q = 1
       \<and> activeRequests q = int (length (running q))
       \<and> int (length (filter (\<lambda>i. i \<notin> fst ` set (settled q)) (dispatch_order q)))
            \<le> activeRequests q
       \<and> (\<forall>t i q'. step (t, Finally i) q = Some q' \<longrightarrow> activeRequests q' = activeRequests q - 1)"
proof -
  have c: "control_inv q" using control_inv_run [OF control_inv_new assms] .
  have h: "hist_inv q" using hist_inv_run [OF hist_inv_init assms] .
  have u: "int (length (filter (\<lambda>i. i \<notin> fst ` set (settled q)) (dispatch_order q)))
            \<le> activeRequests q"
    using unsettled_le_running [of q] h c by (simp add: hist_inv_def control_inv_def)
  have f: "\<forall>t i q'. step (t, Finally i) q = Some q' \<longrightarrow> activeRequests q' = activeRequests q - 1"
    by (auto simp: step_def Let_def split: if_splits)
  show ?thesis using c u f by (simp add: control_inv_def)
qed

theorem active_requests_bounded_witness:
  "\<exists>q q'. run [(1000, Add Normal), (1000, Add High), (1010, Timer),
            (1050, Settle 0 (Rejected ()))] RequestQueue_new = Some q
       \<and> activeRequests q = 1 \<and> activeRequests q \<le> maxConcurrent q \<and> queue q = [1]
       \<and> step (1060, Finally 0) q = Some q' \<and> activeRequests q' = activeRequests q - 1"
proof -
  let ?tr = "[(1000, Add Normal), (1000, Add High), (1010, Timer),
            (1050::real, Settle 0 (Rejected ()))]"
  obtain q where r: "run ?tr RequestQueue_new = Some q"
    and a: "activeRequests q = 1" "queue q = [1]"
    and s: "step (1060, Finally 0) q
              = Some (q\<lparr>clock := 1060, activeRequests := 0, running := []\<rparr>)"
    by (simp add: run_eval)
  from active_requests_bounded [OF r] s
  have "activeRequests q \<le> maxConcurrent q"
    and "activeRequests (q\<lparr>clock := 1060, activeRequests := 0, running := []\<rparr>)
           = activeRequests q - 1"
    by blast+
  with r a s show ?thesis by blast
qed

text \<open>
  Claim C3 as stated fails in the high tier: \<open>unshift\<close> puts every high item in front of the
  earlier ones. Items 1 and 2 are both high, submitted in this order while item 0 is in
  flight, and item 2 is dispatched before item 1.
\<close>

theorem fifo_within_high_tier_counterexample:
  "map_option submitted
     (run [(1000, Add Normal), (1000, Add High), (1000, Add High), (1010, Timer),
           (1020, Settle 0 (Resolved ())), (1020, Finally 0), (1110, WakeConcurrent),
           (1250, WakeDelay), (1260, Timer), (1270, Settle 2 (Resolved ())),
           (1270, Finally 2), (1360, WakeConcurrent), (1500, WakeDelay)] RequestQueue_new)
     = Some [Normal, High, High]
   \<and> map_option dispatch_order
     (run [(1000, Add Normal), (1000, Add High), (1000, Add High), (1010, Timer),
           (1020, Settle 0 (Resolved ())), (1020, Finally 0), (1110, WakeConcurrent),
           (1250, WakeDelay), (1260, Timer), (1270, Settle 2 (Resolved ())),
           (1270, Finally 2), (1360, WakeConcurrent), (1500, WakeDelay)] RequestQueue_new)
     = Some [0, 2, 1]"
  by (simp add: run_eval dispatch_order_def)

text \<open>
  Claim C3, amended. In every state the queue reaches, among the items dispatched (each once):
  an item of either tier is dispatched before every normal item submitted after it, so the
  normal tier is first-in-first-out and a high item precedes the normal items queued after
  it, and no older item is left waiting behind a dispatched normal item; and a high item
  \<open>h\<close> submitted while an earlier item \<open>x\<close> was still waiting (\<open>x\<close> was dispatched after \<open>h\<close>
  was submitted) is dispatched before \<open>x\<close>, whether \<open>x\<close> is normal or high: the high tier is
  last-in-first-out.
\<close>

theorem dispatch_order_respects_tiers:
  assumes "run evs RequestQueue_new = Some q"
  shows "distinct (dispatch_order q)
       \<and> (\<forall>x \<in> set (dispatch_order q). \<forall>m \<in> set (dispatch_order q).
            x < m \<and> submitted q ! m = Normal \<longrightarrow> precedes x m (dispatch_order q))
       \<and> (\<forall>m \<in> set (dispatch_order q). submitted q ! m = Normal \<longrightarrow>
            (\<forall>z \<in> set (queue q). m < z))
       \<and> (\<forall>(x, t, k) \<in> set (dispatched q). \<forall>h. x < h \<and> h < k \<and> submitted q ! h = High \<longrightarrow>
            precedes h x (dispatch_order q))"
proof -
  have h: "hist_inv q" using hist_inv_run [OF hist_inv_init assms] .
  then have "distinct (dispatch_order q)" by (simp add: hist_inv_def accounted_def)
  moreover have "ordered q" using h by (simp add: hist_inv_def)
  ultimately show ?thesis unfolding ordered_def by blast
qed

theorem dispatch_order_respects_tiers_witness:
  "\<exists>q. run [(1000, Add Normal), (1000, Add Normal), (1000, Add High), (1000, Add High),
            (1010, Timer), (1020, Settle 0 (Resolved ())), (1020, Finally 0),
            (1110, WakeConcurrent), (1250, WakeDelay), (1260, Timer),
            (1270, Settle 3 (Resolved ())), (1270, Finally 3), (1360, WakeConcurrent),
            (1500, WakeDelay), (1510, Timer), (1520, Settle 2 (Resolved ())),
            (1520, Finally 2), (1610, WakeConcurrent), (1750, WakeDelay)]
          RequestQueue_new = Some q
       \<and> submitted q = [Normal, Normal, High, High]
       \<and> dispatched q = [(0, 1000, 1), (3, 1250, 4), (2, 1500, 4), (1, 1750, 4)]
       \<and> precedes 0 1 (dispatch_order q) \<and> precedes 2 1 (dispatch_order q)
       \<and> precedes 3 1 (dispatch_order q) \<and> precedes 3 2 (dispatch_order q)"
proof -
  let ?tr = "[(1000, Add Normal), (1000, Add Normal), (1000, Add High), (1000, Add High),
            (1010, Timer), (1020, Settle 0 (Resolved ())), (1020, Finally 0),
            (1110, WakeConcurrent), (1250, WakeDelay), (1260, Timer),
            (1270, Settle 3 (Resolved ())), (1270, Finally 3), (1360, WakeConcurrent),
            (1500, WakeDelay), (1510, Timer), (1520, Settle 2 (Resolved ())),
            (1520, Finally 2), (1610, WakeConcurrent), (1750::real, WakeDelay)]"
  obtain q where r: "run ?tr RequestQueue_new = Some q"
    and s: "submitted q = [Normal, Normal, High, High]"
    and d: "dispatched q = [(0, 1000, 1), (3, 1250, 4), (2, 1500, 4), (1, 1750, 4)]"
    by (simp add: run_eval)
  have o: "dispatch_order q = [0, 3, 2, 1]" by (simp add: dispatch_order_def d)
  from dispatch_order_respects_tiers [OF r]
  have 1: "\<forall>x \<in> set (dispatch_order q). \<forall>m \<in> set (dispatch_order q).
            x < m \<and> submitted q ! m = Normal \<longrightarrow> precedes x m (dispatch_order q)"
    and 2: "\<forall>(x, t, k) \<in> set (dispatched q). \<forall>h. x < h \<and> h < k \<and> submitted q ! h = High \<longrightarrow>
            precedes h x (dispatch_order q)"
    by blast+
  have "precedes 0 1 (dispatch_order q)" using 1 by (simp add: o s)
  moreover have "precedes 2 1 (dispatch_order q)" "precedes 3 1 (dispatch_order q)"
    "precedes 3 2 (dispatch_order q)"
    using 2 by (simp_all add: d s)
  ultimately show ?thesis using r s d by blast
qed

lemma run_append:
  "run (es @ fs) q = (case run es q of None \<Rightarrow> None | Some q1 \<Rightarrow> run fs q1)"
  by (induction es arbitrary: q) (auto split: option.splits)

lemma effect_cleared:
  "keeps q q' \<or> shifts t q q' \<Longrightarrow> cleared q' = cleared q"
  by (auto simp: keeps_def shifts_def)

lemma cleared_step:
  assumes "step te q = Some q'"
  shows "set (cleared q) \<subseteq> set (cleared q') \<and> (\<not> is_clear te \<longrightarrow> cleared q' = cleared q)"
proof -
  let ?t = "fst te" and ?q = "q\<lparr>clock := fst te\<rparr>"
  have c: "cleared ?q = cleared q" by simp
  show ?thesis
  proof (cases "snd te")
    case (Add p)
    then have q': "q' = add ?t p ?q"
      using assms by (simp add: step_def Let_def split: if_splits)
    from add_effect [of p ?q ?t] obtain q1 where
      "enqueued p ?q q1" "keeps q1 q' \<or> shifts ?t q1 q'"
      unfolding q' by blast
    then have "cleared q' = cleared q"
      using effect_cleared [of q1 q' ?t] by (simp add: enqueued_def)
    then show ?thesis by simp
  next
    case WakeConcurrent
    then have "q' = wait_concurrent ?t ?q"
      using assms by (simp add: step_def Let_def split: if_splits drain_loop.splits)
    then show ?thesis using effect_cleared [OF wait_concurrent_effect [of ?q ?t]] by simp
  next
    case WakeDelay
    then have "q' = dispatch ?t ?q"
      using assms by (simp add: step_def Let_def split: if_splits drain_loop.splits)
    then show ?thesis using effect_cleared [OF dispatch_effect [of ?q ?t]] by simp
  next
    case Timer
    then have "q' = process ?t ?q"
      using assms by (simp add: step_def Let_def split: if_splits drain_loop.splits)
    then show ?thesis using effect_cleared [OF process_effect [of ?q ?t]] by simp
  next
    case (Settle i out)
    then show ?thesis using assms by (auto simp: step_def Let_def split: if_splits)
  next
    case (Finally i)
    then show ?thesis using assms by (auto simp: step_def Let_def split: if_splits)
  next
    case ClearQueue
    then show ?thesis
      using assms by (auto simp: step_def Let_def clearQueue_def is_clear_def split: if_splits)
  next
    case (SetRequestsPerSecond r)
    then show ?thesis
      using assms by (auto simp: step_def Let_def setRequestsPerSecond_def split: if_splits)
  qed
qed

lemma cleared_run:
  "run es q = Some q' \<Longrightarrow>
     set (cleared q) \<subseteq> set (cleared q') \<and> ((\<forall>e \<in> set es. \<not> is_clear e) \<longrightarrow> cleared q' = cleared q)"
proof (induction es arbitrary: q)
  case Nil
  then show ?case by simp
next
  case (Cons e es)
  from Cons.prems obtain q1 where s: "step e q = Some q1" and r: "run es q1 = Some q'"
    by (auto split: option.splits)
  from cleared_step [OF s] Cons.IH [OF r] show ?case by auto
qed

text \<open>
  Claim C9 as stated fails: \<open>clearQueue\<close> replaces the array by an empty one. Item 1, waiting
  behind item 0, is discarded; the drain loop then stops on the empty queue, and item 1 was
  neither dispatched nor was its promise settled.
\<close>

theorem clearQueue_drops_items_counterexample:
  "map_option cleared
     (run [(1000, Add Normal), (1000, Add Normal), (1001, ClearQueue), (1010, Timer)]
        (RequestQueue_new :: unit RequestQueue)) = Some [1]
   \<and> map_option dispatch_order
     (run [(1000, Add Normal), (1000, Add Normal), (1001, ClearQueue), (1010, Timer)]
        (RequestQueue_new :: unit RequestQueue)) = Some [0]
   \<and> map_option queue
     (run [(1000, Add Normal), (1000, Add Normal), (1001, ClearQueue), (1010, Timer)]
        (RequestQueue_new :: unit RequestQueue)) = Some []
   \<and> map_option settled
     (run [(1000, Add Normal), (1000, Add Normal), (1001, ClearQueue), (1010, Timer)]
        (RequestQueue_new :: unit RequestQueue)) = Some []
   \<and> map_option drain
     (run [(1000, Add Normal), (1000, Add Normal), (1001, ClearQueue), (1010, Timer)]
        (RequestQueue_new :: unit RequestQueue)) = Some Idle"
  by (simp add: run_eval dispatch_order_def)

lemma waits_serves: "waits q q1 \<Longrightarrow> serves q1 q' \<Longrightarrow> serves q q'"
  by (auto simp: waits_def serves_def dispatch_order_def)

lemma dispatch_serves: "queue q \<noteq> [] \<Longrightarrow> serves q (dispatch t (q\<lparr>clock := c\<rparr>))"
  by (cases "queue q") (auto simp: serves_def dispatch_def dispatch_order_def)

lemma serve_from_delay:
  assumes "queue q \<noteq> []" and "drain q = WaitDelay d"
  shows "\<exists>e q'. quiet e \<and> step e q = Some q' \<and> serves q q'"
proof -
  let ?t = "max d (clock q)"
  have "step (?t, WakeDelay) q = Some (dispatch ?t (q\<lparr>clock := ?t\<rparr>))"
    using assms(2) by (simp add: step_def Let_def)
  moreover have "quiet (?t, WakeDelay)" by (simp add: quiet_def)
  ultimately show ?thesis using dispatch_serves [OF assms(1)] by blast
qed

lemma enforce_delay_outcome:
  assumes "queue q \<noteq> []"
  shows "serves q (enforce_delay t q)
       \<or> (waits q (enforce_delay t q) \<and> (\<exists>d. drain (enforce_delay t q) = WaitDelay d))"
  using assms
  by (cases "queue q")
     (auto simp: enforce_delay_def Let_def waits_def serves_def dispatch_def dispatch_order_def)

lemma serve_after_enforce_delay:
  assumes "queue q \<noteq> []" and "waits q q0" 
  shows "\<exists>es q'. (\<forall>e \<in> set es. quiet e) \<and> run es (enforce_delay t q0) = Some q' \<and> serves q q'"
proof -
  have n: "queue q0 \<noteq> []" using assms by (simp add: waits_def)
  from enforce_delay_outcome [OF n, of t] show ?thesis
  proof
    assume "serves q0 (enforce_delay t q0)"
    then have "serves q (enforce_delay t q0)" using assms(2) waits_serves by blast
    then have "(\<forall>e \<in> set []. quiet e) \<and> run [] (enforce_delay t q0) = Some (enforce_delay t q0)
        \<and> serves q (enforce_delay t q0)" by simp
    then show ?thesis by blast
  next
    assume a: "waits q0 (enforce_delay t q0) \<and> (\<exists>d. drain (enforce_delay t q0) = WaitDelay d)"
    then obtain d where d: "drain (enforce_delay t q0) = WaitDelay d" by blast
    have n1: "queue (enforce_delay t q0) \<noteq> []" using a n by (simp add: waits_def)
    from serve_from_delay [OF n1 d] obtain e q' where
      e: "quiet e" "step e (enforce_delay t q0) = Some q'" "serves (enforce_delay t q0) q'"
      by blast
    have "serves q q'" using assms(2) a e(3) waits_serves by blast
    moreover have "run [e] (enforce_delay t q0) = Some q'" using e(2) by simp
    ultimately have "(\<forall>x \<in> set [e]. quiet x) \<and> run [e] (enforce_delay t q0) = Some q'
        \<and> serves q q'" using e(1) by simp
    then show ?thesis by blast
  qed
qed

lemma run_Cons_Some: "step e q = Some q1 \<Longrightarrow> run es q1 = Some q' \<Longrightarrow> run (e # es) q = Some q'"
  by simp

lemma serve_from_free_slot:
  assumes "queue q \<noteq> []" and "drain q = WaitConcurrent d"
    and "activeRequests q < maxConcurrent q"
  shows "\<exists>es q'. (\<forall>e \<in> set es. quiet e) \<and> run es q = Some q' \<and> serves q q'"
proof -
  let ?t = "max d (clock q)" and ?q0 = "q\<lparr>clock := max d (clock q)\<rparr>"
  have s: "step (?t, WakeConcurrent) q = Some (enforce_delay ?t ?q0)"
    using assms(2,3) by (simp add: step_def Let_def wait_concurrent_def)
  have w: "waits q ?q0" by (simp add: waits_def)
  from serve_after_enforce_delay [OF assms(1) w, of ?t] obtain es q' where
    e: "\<forall>e \<in> set es. quiet e" "run es (enforce_delay ?t ?q0) = Some q'" "serves q q'"
    by blast
  have "run ((?t, WakeConcurrent) # es) q = Some q'"
    using s e(2) by (rule run_Cons_Some)
  moreover have "\<forall>e \<in> set ((?t, WakeConcurrent) # es). quiet e"
    using e(1) by (simp add: quiet_def)
  ultimately show ?thesis using e(3) by blast
qed

lemma free_slot:
  assumes c: "control_inv q" and a: "activeRequests q \<ge> maxConcurrent q"
  shows "\<exists>es q1. (\<forall>e \<in> set es. quiet e) \<and> run es q = Some q1 \<and> waits q q1
           \<and> drain q1 = drain q \<and> activeRequests q1 < maxConcurrent q1"
proof -
  from c a have "length (running q) = 1" "maxConcurrent q = 1"
    "activeRequests q = int (length (running q))"
    by (simp_all add: control_inv_def)
  then obtain i where r: "running q = [i]" and m: "maxConcurrent q = 1" "activeRequests q = 1"
    by (cases "running q") auto
  let ?c = "clock q"
  show ?thesis
  proof (cases "i \<in> fst ` set (settled q)")
    case True
    let ?q1 = "q\<lparr>clock := ?c, activeRequests := activeRequests q - 1, running := remove1 i (running q)\<rparr>"
    have "step (?c, Finally i) q = Some ?q1"
      using True r by (simp add: step_def Let_def)
    then have "run [(?c, Finally i)] q = Some ?q1" by simp
    moreover have "\<forall>e \<in> set [(?c, Finally i :: 'a event)]. quiet e" by (simp add: quiet_def)
    moreover have "waits q ?q1" "drain ?q1 = drain q" "activeRequests ?q1 < maxConcurrent ?q1"
      using m by (simp_all add: waits_def)
    ultimately show ?thesis by blast
  next
    case False
    let ?out = "Resolved undefined :: 'a outcome"
    let ?q0 = "q\<lparr>clock := ?c, settled := settled q @ [(i, ?out)]\<rparr>"
    let ?q1 = "?q0\<lparr>clock := ?c, activeRequests := activeRequests q - 1,
                 running := remove1 i (running q)\<rparr>"
    have s1: "step (?c, Settle i ?out) q = Some ?q0"
      using False r by (simp add: step_def Let_def)
    have s2: "step (?c, Finally i) ?q0 = Some ?q1"
      using r by (simp add: step_def Let_def)
    have "run [(?c, Settle i ?out), (?c, Finally i)] q = Some ?q1"
      using s1 s2 by simp
    moreover have "\<forall>e \<in> set [(?c, Settle i ?out), (?c, Finally i)]. quiet e"
      by (simp add: quiet_def)
    moreover have "waits q ?q1" "drain ?q1 = drain q" "activeRequests ?q1 < maxConcurrent ?q1"
      using m by (simp_all add: waits_def)
    ultimately show ?thesis by blast
  qed
qed

lemma serve_from_concurrent:
  assumes c: "control_inv q" and n: "queue q \<noteq> []" and d: "drain q = WaitConcurrent d"
  shows "\<exists>es q'. (\<forall>e \<in> set es. quiet e) \<and> run es q = Some q' \<and> serves q q'"
proof (cases "activeRequests q < maxConcurrent q")
  case True
  then show ?thesis using serve_from_free_slot [OF n d] by blast
next
  case False
  then have "activeRequests q \<ge> maxConcurrent q" by simp
  from free_slot [OF c this] obtain es1 q1 where
    1: "\<forall>e \<in> set es1. quiet e" "run es1 q = Some q1" "waits q q1" "drain q1 = drain q"
       "activeRequests q1 < maxConcurrent q1"
    by blast
  have n1: "queue q1 \<noteq> []" using 1(3) n by (simp add: waits_def)
  have d1: "drain q1 = WaitConcurrent d" using 1(4) d by simp
  from serve_from_free_slot [OF n1 d1 1(5)] obtain es2 q' where
    2: "\<forall>e \<in> set es2. quiet e" "run es2 q1 = Some q'" "serves q1 q'"
    by blast
  have "run (es1 @ es2) q = Some q'" using 1(2) 2(2) by (simp add: run_append)
  moreover have "\<forall>e \<in> set (es1 @ es2). quiet e" using 1(1) 2(1) by auto
  moreover have "serves q q'" using 1(3) 2(3) waits_serves by blast
  ultimately show ?thesis by blast
qed

lemma serve_from_scheduled:
  assumes c: "control_inv q" and n: "queue q \<noteq> []" and d: "drain q = Scheduled d"
  shows "\<exists>es q'. (\<forall>e \<in> set es. quiet e) \<and> run es q = Some q' \<and> serves q q'"
proof -
  let ?t = "max d (clock q)"
  let ?qp = "q\<lparr>clock := ?t, processing := True\<rparr>"
  have s: "step (?t, Timer) q = Some (wait_concurrent ?t ?qp)"
    using d n by (simp add: step_def Let_def process_def)
  have qt: "quiet (?t, Timer)" by (simp add: quiet_def)
  have w: "waits q ?qp" by (simp add: waits_def)
  show ?thesis
  proof (cases "activeRequests q \<ge> maxConcurrent q")
    case True
    let ?q1 = "?qp\<lparr>drain := WaitConcurrent (?t + 100)\<rparr>"
    have e: "wait_concurrent ?t ?qp = ?q1" using True by (simp add: wait_concurrent_def)
    have c1: "control_inv ?q1" using control_inv_step [OF c s] e by simp
    have n1: "queue ?q1 \<noteq> []" using n by simp
    from serve_from_concurrent [OF c1 n1] obtain es q' where
      2: "\<forall>e \<in> set es. quiet e" "run es ?q1 = Some q'" "serves ?q1 q'"
      by auto
    have "run ((?t, Timer) # es) q = Some q'" using s e 2(2) by simp
    moreover have "\<forall>e \<in> set ((?t, Timer) # es). quiet e" using qt 2(1) by simp
    moreover have "serves q q'" using 2(3) waits_serves [of q ?q1 q'] by (simp add: waits_def)
    ultimately show ?thesis by blast
  next
    case False
    then have e: "wait_concurrent ?t ?qp = enforce_delay ?t ?qp"
      by (simp add: wait_concurrent_def)
    from serve_after_enforce_delay [OF n w, of ?t] obtain es q' where
      2: "\<forall>e \<in> set es. quiet e" "run es (enforce_delay ?t ?qp) = Some q'" "serves q q'"
      by blast
    have "run ((?t, Timer) # es) q = Some q'" using s e 2(2) by simp
    moreover have "\<forall>e \<in> set ((?t, Timer) # es). quiet e" using qt 2(1) by simp
    ultimately show ?thesis using 2(3) by blast
  qed
qed

lemma serve_head:
  assumes c: "control_inv q" and n: "queue q \<noteq> []"
  shows "\<exists>es q'. (\<forall>e \<in> set es. quiet e) \<and> run es q = Some q' \<and> serves q q'"
proof (cases "drain q")
  case Idle
  then show ?thesis using c n by (simp add: control_inv_def)
next
  case (WaitConcurrent d)
  then show ?thesis using serve_from_concurrent [OF c n] by blast
next
  case (WaitDelay d)
  from serve_from_delay [OF n this] obtain e q' where
    "quiet e" "step e q = Some q'" "serves q q'" by blast
  then have "(\<forall>x \<in> set [e]. quiet x) \<and> run [e] q = Some q' \<and> serves q q'" by simp
  then show ?thesis by blast
next
  case (Scheduled d)
  then show ?thesis using serve_from_scheduled [OF c n] by blast
qed

lemma drain_queue:
  assumes "control_inv q"
  shows "\<exists>es q'. (\<forall>e \<in> set es. quiet e) \<and> run es q = Some q' \<and> queue q' = []
           \<and> dispatch_order q' = dispatch_order q @ queue q
           \<and> submitted q' = submitted q \<and> cleared q' = cleared q"
  using assms
proof (induction "length (queue q)" arbitrary: q)
  case 0
  then have "(\<forall>e \<in> set []. quiet e) \<and> run [] q = Some q \<and> queue q = []
           \<and> dispatch_order q = dispatch_order q @ queue q" by simp
  then show ?case by blast
next
  case (Suc n)
  then have ne: "queue q \<noteq> []" by auto
  from serve_head [OF Suc.prems ne] obtain es1 q1 where
    1: "\<forall>e \<in> set es1. quiet e" "run es1 q = Some q1" "serves q q1"
    by blast
  from 1(3) obtain fn rest where
    q: "queue q = fn # rest" "queue q1 = rest" "dispatch_order q1 = dispatch_order q @ [fn]"
       "submitted q1 = submitted q" "cleared q1 = cleared q"
    by (auto simp: serves_def)
  have l: "n = length (queue q1)" using Suc.hyps(2) q by simp
  have c1: "control_inv q1" using control_inv_run [OF Suc.prems 1(2)] .
  from Suc.hyps(1) [OF l c1] obtain es2 q' where
    2: "\<forall>e \<in> set es2. quiet e" "run es2 q1 = Some q'" "queue q' = []"
       "dispatch_order q' = dispatch_order q1 @ queue q1"
       "submitted q' = submitted q1" "cleared q' = cleared q1"
    by blast
  have "run (es1 @ es2) q = Some q'" using 1(2) 2(2) by (simp add: run_append)
  moreover have "\<forall>e \<in> set (es1 @ es2). quiet e" using 1(1) 2(1) by auto
  moreover have "dispatch_order q' = dispatch_order q @ queue q" using 2(4) q by simp
  ultimately show ?case using 2(3,5,6) q(4,5) by (metis (no_types))
qed

text \<open>
  Claim C9, amended. In every state the queue reaches: no item is dispatched twice; a promise
  is settled at most once, with the outcome of the item's work, and only for a dispatched
  item, which stays in flight until then; every submitted item is waiting in the queue,
  dispatched, or was discarded by \<open>clearQueue\<close>, and without a call of \<open>clearQueue\<close> none is
  discarded; an item discarded by \<open>clearQueue\<close> is never dispatched and its promise never
  settled; and from the state reached there is a continuation by the runtime alone (timers
  firing, the work in flight completing, no further call of a queue method) in which the
  single drain loop dispatches every item still waiting, in queue order.
\<close>

theorem items_consumed_at_most_once:
  assumes "run evs RequestQueue_new = Some q"
  shows "distinct (dispatch_order q)
       \<and> distinct (map fst (settled q)) \<and> fst ` set (settled q) \<subseteq> set (dispatch_order q)
       \<and> (\<forall>i \<in> set (dispatch_order q). i \<in> set (running q) \<or> i \<in> fst ` set (settled q))
       \<and> (\<forall>i < length (submitted q).
             i \<in> set (queue q) \<or> i \<in> set (dispatch_order q) \<or> i \<in> set (cleared q))
       \<and> set (queue q) \<inter> set (dispatch_order q) = {}
       \<and> ((\<forall>e \<in> set evs. \<not> is_clear e) \<longrightarrow> cleared q = [])
       \<and> (\<forall>evs' q'. run evs' q = Some q' \<longrightarrow>
             (\<forall>i \<in> set (cleared q). i \<in> set (cleared q') \<and> i \<notin> set (dispatch_order q')
                 \<and> i \<notin> fst ` set (settled q')))
       \<and> (\<exists>es q'. (\<forall>e \<in> set es. quiet e) \<and> run es q = Some q' \<and> queue q' = []
             \<and> dispatch_order q' = dispatch_order q @ queue q)"
proof -
  have h: "hist_inv q" using hist_inv_run [OF hist_inv_init assms] .
  then have a: "accounted q" and w: "work_ok q" by (simp_all add: hist_inv_def)
  have 1: "distinct (dispatch_order q)" "set (queue q) \<inter> set (dispatch_order q) = {}"
    using a by (auto simp: accounted_def)
  have 2: "\<forall>i < length (submitted q).
             i \<in> set (queue q) \<or> i \<in> set (dispatch_order q) \<or> i \<in> set (cleared q)"
  proof (intro allI impI)
    fix i assume "i < length (submitted q)"
    then have "i \<in> set (queue q @ dispatch_order q @ cleared q)"
      using a unfolding accounted_def by blast
    then show "i \<in> set (queue q) \<or> i \<in> set (dispatch_order q) \<or> i \<in> set (cleared q)"
      by auto
  qed
  have 3: "(\<forall>e \<in> set evs. \<not> is_clear e) \<longrightarrow> cleared q = []"
    using cleared_run [OF assms] by (simp add: RequestQueue_new_def)
  have 4: "\<forall>evs' q'. run evs' q = Some q' \<longrightarrow>
             (\<forall>i \<in> set (cleared q). i \<in> set (cleared q') \<and> i \<notin> set (dispatch_order q')
                 \<and> i \<notin> fst ` set (settled q'))"
  proof (intro allI impI ballI)
    fix evs' q' i assume r: "run evs' q = Some q'" and i: "i \<in> set (cleared q)"
    have h': "hist_inv q'" using hist_inv_run [OF h r] .
    have c: "i \<in> set (cleared q')" using cleared_run [OF r] i by blast
    moreover have "i \<notin> set (dispatch_order q')"
      using h' c by (auto simp: hist_inv_def accounted_def)
    moreover have "i \<notin> fst ` set (settled q')"
      using h' \<open>i \<notin> set (dispatch_order q')\<close> by (auto simp: hist_inv_def work_ok_def)
    ultimately show "i \<in> set (cleared q') \<and> i \<notin> set (dispatch_order q')
                 \<and> i \<notin> fst ` set (settled q')" by blast
  qed
  have c: "control_inv q" using control_inv_run [OF control_inv_new assms] .
  from drain_queue [OF c]
  have 5: "\<exists>es q'. (\<forall>e \<in> set es. quiet e) \<and> run es q = Some q' \<and> queue q' = []
             \<and> dispatch_order q' = dispatch_order q @ queue q"
    by blast
  have 6: "distinct (map fst (settled q))" "fst ` set (settled q) \<subseteq> set (dispatch_order q)"
    "\<forall>i \<in> set (dispatch_order q). i \<in> set (running q) \<or> i \<in> fst ` set (settled q)"
    using w unfolding work_ok_def by blast+
  show ?thesis by (intro conjI 1 2 3 4 5 6)
qed

theorem items_consumed_at_most_once_witness:
  "\<exists>q. run [(1000, Add Normal), (1000, Add High), (1010, Timer),
            (1020, Settle 0 (Rejected ())), (1020, Finally 0), (1110, WakeConcurrent),
            (1250, WakeDelay), (1255, Settle 1 (Resolved ()))] RequestQueue_new = Some q
       \<and> (\<forall>e \<in> set [(1000, Add Normal), (1000, Add High), (1010, Timer),
            (1020, Settle 0 (Rejected ())), (1020, Finally 0), (1110, WakeConcurrent),
            (1250, WakeDelay), (1255::real, Settle 1 (Resolved ()))]. \<not> is_clear e)
       \<and> dispatch_order q = [0, 1] \<and> distinct (dispatch_order q)
       \<and> settled q = [(0, Rejected ()), (1, Resolved ())]
       \<and> cleared q = [] \<and> queue q = []"
proof -
  let ?tr = "[(1000, Add Normal), (1000, Add High), (1010, Timer),
            (1020, Settle 0 (Rejected ())), (1020, Finally 0), (1110, WakeConcurrent),
            (1250, WakeDelay), (1255::real, Settle 1 (Resolved ()))]"
  obtain q where r: "run ?tr RequestQueue_new = Some q"
    and d: "dispatch_order q = [0, 1]" "settled q = [(0, Rejected ()), (1, Resolved ())]"
      "queue q = []"
    by (simp add: run_eval dispatch_order_def)
  have n: "\<forall>e \<in> set ?tr. \<not> is_clear e" by (simp add: is_clear_def)
  from items_consumed_at_most_once [OF r] n
  have "distinct (dispatch_order q)" "cleared q = []" by blast+
  with r n d show ?thesis by blast
qed

end
